theory Spec2Isabelle
  imports Main "HOL-Library.AList"
begin

text \<open>
  \<^verbatim>\<open>HandleOptionalParameters\<close> (\<^verbatim>\<open>src/lib/index.ts\<close>) is a construct whose constructor
  assembles the definition of a state machine: six states in a row, whose parameters
  are computed from the two lists of property names and from the expression
  \<^verbatim>\<open>dataProcessing\<close>. The theory has the constructor's computations as they are written
  (the literal of the placeholder object, the mapped item array, the two \<^verbatim>\<open>reduce\<close> calls
  of the format expression) and, for each state, the function from its input document
  to its output document or failure that the Amazon States Language gives to the
  state's parameters. The intrinsic functions, JSON paths and the Choice rule that the
  parameters use are modelled on the documents below; what a run takes from the engine
  (the execution's identifier, the values of \<^verbatim>\<open>States.UUID()\<close>, the evaluation of the
  user's expression, a path outside the dot notation) is a parameter. The constructor
  checks nothing about the property names and splices them into paths, templates and
  keys; what a run does is stated for names that are plain identifiers, and the runs on
  other names are shown where a claim fails on them.
\<close>

section \<open>JSON documents\<close>

text \<open>
  Every state of the generated state machine consumes and produces a JSON document.
  Objects are association lists in key order. The numbers of the documents are the
  integers: a number with a fraction or an exponent, and the rounding that the engine
  applies to a large number, are outside the theory.
\<close>

datatype json =
    JNull
  | JBool bool
  | JNum int
  | JStr string
  | JArr "json list"
  | JObj "(string \<times> json) list"

text \<open>
  The failures of a run: a path that selects nothing, an intrinsic function that
  rejects its arguments (also the user's expression), and a text that
  \<^verbatim>\<open>States.StringToJson\<close> cannot read.
\<close>

datatype error =
    PathNotFound
  | IntrinsicFailure
  | InvalidJson

text \<open>
  The only build-time failure the specification names. The constructor in
  \<^verbatim>\<open>src/lib/index.ts\<close> has no \<^verbatim>\<open>throw\<close> statement.
\<close>

datatype build_error = InvalidSchema

definition bindE :: "error + 'a \<Rightarrow> ('a \<Rightarrow> error + 'b) \<Rightarrow> error + 'b" where
  "bindE m f = (case m of Inl e \<Rightarrow> Inl e | Inr x \<Rightarrow> f x)"

fun mapE :: "('a \<Rightarrow> error + 'b) \<Rightarrow> 'a list \<Rightarrow> error + 'b list" where
  "mapE f [] = Inr []"
| "mapE f (x # xs) =
     (case f x of
        Inl e \<Rightarrow> Inl e
      | Inr y \<Rightarrow> (case mapE f xs of Inl e \<Rightarrow> Inl e | Inr ys \<Rightarrow> Inr (y # ys)))"

text \<open>
  \<open>member k j\<close> is the child \<open>k\<close> of the object \<open>j\<close>, if any; \<open>field k j\<close> is the
  definite path \<^verbatim>\<open>$.k\<close>, which fails the state when it selects nothing.
\<close>

definition member :: "string \<Rightarrow> json \<Rightarrow> json option" where
  "member k j = (case j of JObj kvs \<Rightarrow> map_of kvs k | _ \<Rightarrow> None)"

definition field :: "string \<Rightarrow> json \<Rightarrow> error + json" where
  "field k j = (case member k j of None \<Rightarrow> Inl PathNotFound | Some v \<Rightarrow> Inr v)"

section \<open>The intrinsic functions the definition calls\<close>

subsection \<open>States.JsonToString\<close>

text \<open>
  The compact text of a document: no blanks, an integer in decimal digits, a string
  between quotes. In a string a quote and a backslash follow a backslash, the control
  characters (below \<^verbatim>\<open>0x20\<close>) are written as \<^verbatim>\<open>\b\<close>, \<^verbatim>\<open>\t\<close>, \<^verbatim>\<open>\n\<close>, \<^verbatim>\<open>\f\<close>, \<^verbatim>\<open>\r\<close> or
  \<^verbatim>\<open>\u00XX\<close>, and every other character is written as it is. A string is the sequence
  of the bytes of its UTF-8 encoding.
\<close>

fun digits :: "nat \<Rightarrow> string" where
  "digits n =
     (if n < 10 then [char_of (48 + n)]
      else digits (n div 10) @ [char_of (48 + n mod 10)])"

definition quote :: char where
  "quote = CHR 0x22"

definition backslash :: char where
  "backslash = CHR 0x5C"

definition is_control :: "char \<Rightarrow> bool" where
  "is_control c = ((of_char c :: nat) < 32)"

definition hexdigit :: "nat \<Rightarrow> char" where
  "hexdigit d = (if d < 10 then char_of (48 + d) else char_of (55 + d))"

definition escape_char :: "char \<Rightarrow> string" where
  "escape_char c =
     (if c = quote \<or> c = backslash then [backslash, c]
      else if c = CHR 0x08 then [backslash, CHR ''b'']
      else if c = CHR 0x09 then [backslash, CHR ''t'']
      else if c = CHR 0x0A then [backslash, CHR ''n'']
      else if c = CHR 0x0C then [backslash, CHR ''f'']
      else if c = CHR 0x0D then [backslash, CHR ''r'']
      else if is_control c then
        [backslash, CHR ''u'', CHR ''0'', CHR ''0'',
         hexdigit (of_char c div 16), hexdigit (of_char c mod 16)]
      else [c])"

definition escape :: "string \<Rightarrow> string" where
  "escape s = concat (map escape_char s)"

fun join :: "string \<Rightarrow> string list \<Rightarrow> string" where
  "join sep [] = []"
| "join sep [x] = x"
| "join sep (x # y # ys) = x @ sep @ join sep (y # ys)"

fun JsonToString :: "json \<Rightarrow> string" where
  "JsonToString JNull = ''null''"
| "JsonToString (JBool b) = (if b then ''true'' else ''false'')"
| "JsonToString (JNum i) =
     (if i < 0 then CHR ''-'' # digits (nat (- i)) else digits (nat i))"
| "JsonToString (JStr s) = quote # escape s @ [quote]"
| "JsonToString (JArr xs) = CHR ''['' # join '','' (map JsonToString xs) @ '']''"
| "JsonToString (JObj kvs) =
     CHR ''{'' #
       join '','' (map (\<lambda>kv. quote # escape (fst kv) @ quote # CHR '':'' # JsonToString (snd kv)) kvs)
     @ ''}''"

subsection \<open>States.StringToJson\<close>

text \<open>
  The reader of JSON text. Blanks are skipped between the tokens. A string ends at the
  first quote that no backslash precedes; a backslash starts one of the escapes
  \<^verbatim>\<open>\" \\ \/ \b \t \n \f \r\<close> or \<^verbatim>\<open>\uXXXX\<close> (four hexadecimal digits, a high surrogate
  followed by the escape of a low one), and a control character that is not escaped
  is refused. A number is an optional minus sign and decimal digits without a
  superfluous leading zero; the reader stops before a fraction or an exponent, which
  the documents of this theory do not have, so a text with one is not read.
\<close>

definition is_ws :: "char \<Rightarrow> bool" where
  "is_ws c = (c = CHR '' '' \<or> c = CHR 0x09 \<or> c = CHR 0x0A \<or> c = CHR 0x0D)"

definition skip_ws :: "string \<Rightarrow> string" where
  "skip_ws s = dropWhile is_ws s"

definition is_digit :: "char \<Rightarrow> bool" where
  "is_digit c = (48 \<le> (of_char c :: nat) \<and> (of_char c :: nat) \<le> 57)"

definition number_of :: "string \<Rightarrow> nat" where
  "number_of ds = foldl (\<lambda>a c. 10 * a + (of_char c - 48)) 0 ds"

definition hexval :: "char \<Rightarrow> nat option" where
  "hexval c =
     (let n = (of_char c :: nat) in
        if 48 \<le> n \<and> n \<le> 57 then Some (n - 48)
        else if 65 \<le> n \<and> n \<le> 70 then Some (n - 55)
        else if 97 \<le> n \<and> n \<le> 102 then Some (n - 87)
        else None)"

definition hex4 :: "string \<Rightarrow> nat option" where
  "hex4 s =
     (case s of
        a # b # c # d # _ \<Rightarrow>
          (case hexval a of None \<Rightarrow> None | Some w \<Rightarrow>
          (case hexval b of None \<Rightarrow> None | Some x \<Rightarrow>
          (case hexval c of None \<Rightarrow> None | Some y \<Rightarrow>
          (case hexval d of None \<Rightarrow> None | Some z \<Rightarrow>
             Some (((w * 16 + x) * 16 + y) * 16 + z)))))
      | _ \<Rightarrow> None)"

definition utf8 :: "nat \<Rightarrow> string" where
  "utf8 n =
     (if n < 128 then [char_of n]
      else if n < 2048 then [char_of (192 + n div 64), char_of (128 + n mod 64)]
      else if n < 65536 then
        [char_of (224 + n div 4096), char_of (128 + n div 64 mod 64), char_of (128 + n mod 64)]
      else
        [char_of (240 + n div 262144), char_of (128 + n div 4096 mod 64),
         char_of (128 + n div 64 mod 64), char_of (128 + n mod 64)])"

text \<open>
  \<open>unicode_escape s\<close> reads the four digits after \<^verbatim>\<open>\u\<close> at the head of \<open>s\<close>, and the
  second escape of a surrogate pair; it returns the bytes of the character and the
  number of characters of \<open>s\<close> it has read.
\<close>

definition unicode_escape :: "string \<Rightarrow> (string \<times> nat) option" where
  "unicode_escape s =
     (case hex4 s of
        None \<Rightarrow> None
      | Some u \<Rightarrow>
          if 55296 \<le> u \<and> u < 56320 then
            (case drop 4 s of
               b # v # rest \<Rightarrow>
                 if b = backslash \<and> v = CHR ''u'' then
                   (case hex4 rest of
                      None \<Rightarrow> None
                    | Some lo \<Rightarrow>
                        if 56320 \<le> lo \<and> lo < 57344
                        then Some (utf8 (65536 + (u - 55296) * 1024 + (lo - 56320)), 10)
                        else None)
                 else None
             | _ \<Rightarrow> None)
          else if 56320 \<le> u \<and> u < 57344 then None
          else Some (utf8 u, 4))"

definition simple_escape :: "char \<Rightarrow> char option" where
  "simple_escape d =
     (if d = quote \<or> d = backslash \<or> d = CHR ''/'' then Some d
      else if d = CHR ''b'' then Some (CHR 0x08)
      else if d = CHR ''t'' then Some (CHR 0x09)
      else if d = CHR ''n'' then Some (CHR 0x0A)
      else if d = CHR ''f'' then Some (CHR 0x0C)
      else if d = CHR ''r'' then Some (CHR 0x0D)
      else None)"

function parse_string_body :: "string \<Rightarrow> (string \<times> string) option" where
  "parse_string_body [] = None"
| "parse_string_body (c # cs) =
     (if c = quote then Some ([], cs)
      else if c = backslash then
        (case cs of
           [] \<Rightarrow> None
         | d # ds \<Rightarrow>
             if d = CHR ''u'' then
               (case unicode_escape ds of
                  None \<Rightarrow> None
                | Some (bs, n) \<Rightarrow>
                    (case parse_string_body (drop n ds) of
                       None \<Rightarrow> None
                     | Some (t, r) \<Rightarrow> Some (bs @ t, r)))
             else
               (case simple_escape d of
                  None \<Rightarrow> None
                | Some x \<Rightarrow>
                    (case parse_string_body ds of
                       None \<Rightarrow> None
                     | Some (t, r) \<Rightarrow> Some (x # t, r))))
      else if is_control c then None
      else
        (case parse_string_body cs of
           None \<Rightarrow> None
         | Some (t, r) \<Rightarrow> Some (c # t, r)))"
  by pat_completeness auto
termination
  by (relation "measure length") auto

definition parse_digits :: "string \<Rightarrow> (nat \<times> string) option" where
  "parse_digits s =
     (case takeWhile is_digit s of
        [] \<Rightarrow> None
      | d # ds \<Rightarrow>
          if d = CHR ''0'' \<and> ds \<noteq> [] then None
          else Some (number_of (d # ds), dropWhile is_digit s))"

definition parse_number :: "string \<Rightarrow> (json \<times> string) option" where
  "parse_number s =
     (case s of
        [] \<Rightarrow> None
      | c # cs \<Rightarrow>
          if c = CHR ''-'' then
            (case parse_digits cs of None \<Rightarrow> None | Some (n, r) \<Rightarrow> Some (JNum (- int n), r))
          else
            (case parse_digits s of None \<Rightarrow> None | Some (n, r) \<Rightarrow> Some (JNum (int n), r)))"

text \<open>
  The parser is a recursive descent with fuel; one unit is used for each value and
  for each element or member of a container, so the length of the text is enough.
  A repeated key of an object replaces the earlier value and keeps its place.
\<close>

fun parse_value :: "nat \<Rightarrow> string \<Rightarrow> (json \<times> string) option"
  and parse_elements :: "nat \<Rightarrow> json list \<Rightarrow> string \<Rightarrow> (json \<times> string) option"
  and parse_members :: "nat \<Rightarrow> (string \<times> json) list \<Rightarrow> string \<Rightarrow> (json \<times> string) option"
where
  "parse_value 0 s = None"
| "parse_value (Suc n) s =
     (case s of
        [] \<Rightarrow> None
      | c # cs \<Rightarrow>
          if c = CHR ''{'' then
            (case skip_ws cs of
               [] \<Rightarrow> None
             | d # ds \<Rightarrow> if d = CHR ''}'' then Some (JObj [], ds) else parse_members n [] (d # ds))
          else if c = CHR ''['' then
            (case skip_ws cs of
               [] \<Rightarrow> None
             | d # ds \<Rightarrow> if d = CHR '']'' then Some (JArr [], ds) else parse_elements n [] (d # ds))
          else if c = quote then
            (case parse_string_body cs of None \<Rightarrow> None | Some (t, r) \<Rightarrow> Some (JStr t, r))
          else if take 4 s = ''true'' then Some (JBool True, drop 4 s)
          else if take 5 s = ''false'' then Some (JBool False, drop 5 s)
          else if take 4 s = ''null'' then Some (JNull, drop 4 s)
          else parse_number s)"
| "parse_elements 0 acc s = None"
| "parse_elements (Suc n) acc s =
     (case parse_value n s of
        None \<Rightarrow> None
      | Some (v, r) \<Rightarrow>
          (case skip_ws r of
             [] \<Rightarrow> None
           | c # cs \<Rightarrow>
               if c = CHR '','' then parse_elements n (acc @ [v]) (skip_ws cs)
               else if c = CHR '']'' then Some (JArr (acc @ [v]), cs)
               else None))"
| "parse_members 0 acc s = None"
| "parse_members (Suc n) acc s =
     (case s of
        [] \<Rightarrow> None
      | c # cs \<Rightarrow>
          if c \<noteq> quote then None
          else
            (case parse_string_body cs of
               None \<Rightarrow> None
             | Some (k, r) \<Rightarrow>
                 (case skip_ws r of
                    [] \<Rightarrow> None
                  | c1 # r1 \<Rightarrow>
                      if c1 \<noteq> CHR '':'' then None
                      else
                        (case parse_value n (skip_ws r1) of
                           None \<Rightarrow> None
                         | Some (v, r2) \<Rightarrow>
                             (case skip_ws r2 of
                                [] \<Rightarrow> None
                              | c2 # r3 \<Rightarrow>
                                  if c2 = CHR '','' then
                                    parse_members n (AList.update k v acc) (skip_ws r3)
                                  else if c2 = CHR ''}'' then
                                    Some (JObj (AList.update k v acc), r3)
                                  else None)))))"

definition StringToJson :: "string \<Rightarrow> json option" where
  "StringToJson s =
     (case parse_value (length s) (skip_ws s) of
        None \<Rightarrow> None
      | Some (v, r) \<Rightarrow> if skip_ws r = [] then Some v else None)"

subsection \<open>States.Format\<close>

text \<open>
  Each \<^verbatim>\<open>{}\<close> of the template is replaced by the next argument; the call fails when
  the numbers of placeholders and arguments differ.
\<close>

fun States_Format :: "string \<Rightarrow> string list \<Rightarrow> string option" where
  "States_Format [] args = (if args = [] then Some [] else None)"
| "States_Format [c] args = (if args = [] then Some [c] else None)"
| "States_Format (c # d # t) args =
     (if c = CHR ''{'' \<and> d = CHR ''}'' then
        (case args of
           [] \<Rightarrow> None
         | a # as \<Rightarrow> (case States_Format t as of None \<Rightarrow> None | Some r \<Rightarrow> Some (a @ r)))
      else (case States_Format (d # t) args of None \<Rightarrow> None | Some r \<Rightarrow> Some (c # r)))"

text \<open>A string argument is inserted as it is, any other value as its JSON text.\<close>

definition formatArg :: "json \<Rightarrow> string" where
  "formatArg j = (case j of JStr s \<Rightarrow> s | _ \<Rightarrow> JsonToString j)"

subsection \<open>States.JsonMerge\<close>

text \<open>The shallow merge: the second object's members replace or extend the first's.\<close>

definition mergeObjects :: "(string \<times> json) list \<Rightarrow> (string \<times> json) list \<Rightarrow> (string \<times> json) list" where
  "mergeObjects xs ys = foldl (\<lambda>acc kv. AList.update (fst kv) (snd kv) acc) xs ys"

definition JsonMerge :: "json \<Rightarrow> json \<Rightarrow> error + json" where
  "JsonMerge a b =
     (case a of
        JObj xs \<Rightarrow>
          (case b of
             JObj ys \<Rightarrow> Inr (JObj (mergeObjects xs ys))
           | _ \<Rightarrow> Inl IntrinsicFailure)
      | _ \<Rightarrow> Inl IntrinsicFailure)"

section \<open>The execution context\<close>

text \<open>
  What a run takes from the engine: the execution's identifier
  (\<^verbatim>\<open>$$.Execution.Id\<close>), the results of the successive calls of
  \<^verbatim>\<open>States.UUID()\<close>, the evaluation of a payload expression (the user's
  \<^verbatim>\<open>dataProcessing\<close>) against a state's input, \<open>None\<close> when it fails, and the value of a
  path that is not in the dot notation below, \<open>None\<close> when the path is refused or selects
  nothing.
\<close>

record execution =
  executionId :: string
  uuid :: "nat \<Rightarrow> string"
  intrinsic :: "string \<Rightarrow> json \<Rightarrow> json option"
  jsonPath :: "string \<Rightarrow> json \<Rightarrow> json option"

section \<open>Paths\<close>

text \<open>
  The constructor writes the path of an item's value by splicing the property name
  after \<^verbatim>\<open>$.output.\<close>, so the name is read in the path language: a dot in it starts a
  new step. \<open>segments\<close> cuts a path at its dots. A path in the dot notation, \<^verbatim>\<open>$\<close>
  followed by steps that are member names (not empty, without blank, control
  character, bracket, parenthesis, apostrophe or one of \<^verbatim>\<open>* ? @ $\<close>), descends member by
  member and fails when a member is missing. Any other path (an empty step, a
  subscript, a wildcard, a filter) is left to the engine. A plain identifier (not
  empty; letters, digits and the underscore) is a step of the dot notation without a
  dot, so the path made of it reads the member of that name.
\<close>

fun segments :: "string \<Rightarrow> string list" where
  "segments [] = [[]]"
| "segments (c # cs) =
     (if c = CHR ''.'' then [] # segments cs
      else (case segments cs of [] \<Rightarrow> [[c]] | seg # segs \<Rightarrow> (c # seg) # segs))"

definition is_name_char :: "char \<Rightarrow> bool" where
  "is_name_char c =
     ((48 \<le> (of_char c :: nat) \<and> (of_char c :: nat) \<le> 57)
      \<or> (65 \<le> (of_char c :: nat) \<and> (of_char c :: nat) \<le> 90)
      \<or> (97 \<le> (of_char c :: nat) \<and> (of_char c :: nat) \<le> 122)
      \<or> c = CHR ''_'')"

definition plain_name :: "string \<Rightarrow> bool" where
  "plain_name n = (n \<noteq> [] \<and> list_all is_name_char n)"

definition path_step :: "string \<Rightarrow> bool" where
  "path_step seg =
     (seg \<noteq> [] \<and>
      list_all (\<lambda>c. c \<notin> set ''[]()*?@$ '' \<and> c \<noteq> CHR 0x27 \<and> \<not> is_control c) seg)"

fun descend :: "string list \<Rightarrow> json \<Rightarrow> error + json" where
  "descend [] j = Inr j"
| "descend (seg # segs) j = bindE (field seg j) (descend segs)"

definition evalPath :: "execution \<Rightarrow> string \<Rightarrow> json \<Rightarrow> error + json" where
  "evalPath ex path j =
     (case segments path of
        [] \<Rightarrow> Inl PathNotFound
      | root # segs \<Rightarrow>
          if root = ''$'' \<and> list_all path_step segs then descend segs j
          else (case jsonPath ex path j of None \<Rightarrow> Inl PathNotFound | Some v \<Rightarrow> Inr v))"

section \<open>The construct\<close>

record HandleOptionalParametersProps =
  requiredProperties :: "string list"
  optionalProperties :: "string list"
  dataProcessing :: string

definition allProperties :: "HandleOptionalParametersProps \<Rightarrow> string list" where
  "allProperties props = requiredProperties props @ optionalProperties props"

subsection \<open>Generate Placeholder\<close>

text \<open>
  The object literal \<^verbatim>\<open>{ [k]: v, ...acc }\<close>: the key \<open>k\<close> comes first, and the
  spread of \<open>acc\<close> overwrites its value when \<open>acc\<close> has the key.
\<close>

definition spreadAfter :: "string \<times> string \<Rightarrow> (string \<times> string) list \<Rightarrow> (string \<times> string) list" where
  "spreadAfter kv acc =
     (fst kv, (case map_of acc (fst kv) of None \<Rightarrow> snd kv | Some w \<Rightarrow> w))
       # filter (\<lambda>p. fst p \<noteq> fst kv) acc"

definition placeholderParameters :: "string list \<Rightarrow> (string \<times> string) list" where
  "placeholderParameters names =
     foldl (\<lambda>acc propertyName. spreadAfter (propertyName @ ''.$'', ''States.UUID()'') acc) [] names"

text \<open>
  At run time every field of the placeholder object is one call of \<^verbatim>\<open>States.UUID()\<close>;
  the field's name is the parameter's key without its \<^verbatim>\<open>.$\<close>.
\<close>

definition placeholderObject :: "execution \<Rightarrow> string list \<Rightarrow> (string \<times> json) list" where
  "placeholderObject ex names =
     map (\<lambda>ikv. (take (length (fst (snd ikv)) - 2) (fst (snd ikv)), JStr (uuid ex (fst ikv))))
       (enumerate 0 (placeholderParameters names))"

definition generatePlaceholderTask :: "execution \<Rightarrow> string list \<Rightarrow> json \<Rightarrow> error + json" where
  "generatePlaceholderTask ex names inp =
     Inr (JObj [(''input'', inp), (''placeholder'', JObj (placeholderObject ex names))])"

subsection \<open>Merge with placeholder\<close>

definition mergeWithPlaceholderValuesTask :: "json \<Rightarrow> error + json" where
  "mergeWithPlaceholderValuesTask st =
     bindE (field ''placeholder'' st) (\<lambda>p.
     bindE (field ''input'' st) (\<lambda>i.
     bindE (JsonMerge p i) (\<lambda>out.
     Inr (JObj [(''output'', out), (''input'', i)]))))"

subsection \<open>Optional properties as array\<close>

text \<open>
  One item per declared name, in the order of the two lists; the item's value is read
  at the path \<^verbatim>\<open>$.output.\<close> followed by the name, its \<^verbatim>\<open>propertyName\<close> is the name.
\<close>

definition optionalPropertiesAsArrayTask :: "execution \<Rightarrow> string list \<Rightarrow> json \<Rightarrow> error + json" where
  "optionalPropertiesAsArrayTask ex names st =
     bindE (mapE (\<lambda>propertyName.
              bindE (evalPath ex (''$.output.'' @ propertyName) st) (\<lambda>v.
              Inr (JObj [(''value'', v), (''propertyName'', JStr propertyName)]))) names) (\<lambda>items.
     bindE (field ''input'' st) (\<lambda>i.
     Inr (JObj [(''transformedInput'', JArr items), (''input'', i)])))"

subsection \<open>Map over all properties\<close>

definition processObjectValuesTask :: "execution \<Rightarrow> string \<Rightarrow> json \<Rightarrow> error + json" where
  "processObjectValuesTask ex dp item =
     (case intrinsic ex dp item of
        None \<Rightarrow> Inl IntrinsicFailure
      | Some v \<Rightarrow>
          bindE (field ''propertyName'' item) (\<lambda>n.
          Inr (JObj [(''value'', v), (''propertyName'', n)])))"

definition formatE :: "string \<Rightarrow> string list \<Rightarrow> error + json" where
  "formatE template args =
     (case States_Format template args of None \<Rightarrow> Inl IntrinsicFailure | Some s \<Rightarrow> Inr (JStr s))"

definition passValues :: "json \<Rightarrow> error + json" where
  "passValues st =
     bindE (field ''propertyName'' st) (\<lambda>n.
     bindE (field ''value'' st) (\<lambda>v.
     bindE (formatE ('','' @ [quote] @ ''{}'' @ [quote] @ '': {}'') [formatArg n, JsonToString v]) (\<lambda>valueToConcat.
     bindE (formatE ([quote] @ ''{}'' @ [quote] @ '': {}'') [formatArg n, JsonToString v]) (\<lambda>value.
     Inr (JObj [(''valueToConcat'', valueToConcat), (''value'', value)])))))"

definition passNullValues :: "json \<Rightarrow> error + json" where
  "passNullValues st =
     Inr (JObj [(''valueToConcat'', JStr ''''), (''separator'', JStr ''''), (''value'', JStr '''')])"

text \<open>
  The Choice state \<^verbatim>\<open>Is value equal to uuid ?\<close>: the rule
  \<^verbatim>\<open>stringEqualsJsonPath("$.value", "$$.Execution.Id")\<close> holds when \<^verbatim>\<open>$.value\<close> is the
  string that is the execution's identifier.
\<close>

definition choiceTask :: "execution \<Rightarrow> string \<Rightarrow> json \<Rightarrow> error + json" where
  "choiceTask ex dp item =
     bindE (field ''value'' item) (\<lambda>v.
       if v = JStr (executionId ex) then passNullValues item
       else bindE (processObjectValuesTask ex dp item) passValues)"

text \<open>
  The result selector: \<^verbatim>\<open>$.[?(@.valueToConcat != ' ')].value\<close> and
  \<^verbatim>\<open>$.*.valueToConcat\<close> over the array of the iterations' results. The Map state
  declares its items path, its iterator and this selector, nothing else: the array of
  results is the one the Amazon States Language defines, one result per item in the
  order of the items, and the state fails when an iteration fails. In which order, or
  how concurrently, the engine runs the iterations is not written in the definition
  and is not part of this theory.
\<close>

definition resultSelector :: "json list \<Rightarrow> error + json" where
  "resultSelector results =
     Inr (JObj
       [(''notNullValues'',
           JArr (List.map_filter (member ''value'')
             (filter (\<lambda>r. member ''valueToConcat'' r \<noteq> None
                          \<and> member ''valueToConcat'' r \<noteq> Some (JStr '' '')) results))),
        (''allValues'', JArr (List.map_filter (member ''valueToConcat'') results))])"

definition mapTask :: "execution \<Rightarrow> string \<Rightarrow> json \<Rightarrow> error + json" where
  "mapTask ex dp st =
     bindE (field ''transformedInput'' st) (\<lambda>items.
       case items of
         JArr xs \<Rightarrow> bindE (mapE (choiceTask ex dp) xs) resultSelector
       | _ \<Rightarrow> Inl PathNotFound)"

subsection \<open>Concat\<close>

text \<open>The two \<^verbatim>\<open>reduce\<close> calls that build the expression of \<^verbatim>\<open>object.$\<close>.\<close>

definition string_expr :: "string list \<Rightarrow> string" where
  "string_expr names =
     foldl (\<lambda>currentString _. currentString @ ''{} '') ''States.Format(' '' names"

definition format_expr :: "string list \<Rightarrow> string" where
  "format_expr names =
     foldl (\<lambda>currentString index. currentString @ '', $.allValues['' @ digits index @ '']'')
       (string_expr names @ '' {} {} {}', '{', $.notNullValues[0]  '')
       [0 ..< length names]"

definition object_expr :: "string list \<Rightarrow> string" where
  "object_expr names = format_expr names @ '' , '}')''"

text \<open>
  The same call, read as the engine reads it: a template and its arguments, each a
  literal or a path into the state's input.
\<close>

datatype arg = Lit string | NotNullValues nat | AllValues nat

definition concatTemplate :: "string list \<Rightarrow> string" where
  "concatTemplate names = '' '' @ concat (map (\<lambda>_. ''{} '') names) @ '' {} {} {}''"

definition concatArgs :: "string list \<Rightarrow> arg list" where
  "concatArgs names =
     Lit ''{'' # NotNullValues 0 # map AllValues [0 ..< length names] @ [Lit ''}'']"

definition nthE :: "json list \<Rightarrow> nat \<Rightarrow> error + json" where
  "nthE xs i = (if i < length xs then Inr (xs ! i) else Inl PathNotFound)"

definition elementE :: "string \<Rightarrow> nat \<Rightarrow> json \<Rightarrow> error + json" where
  "elementE k i st =
     bindE (field k st) (\<lambda>a. case a of JArr xs \<Rightarrow> nthE xs i | _ \<Rightarrow> Inl PathNotFound)"

fun evalArg :: "json \<Rightarrow> arg \<Rightarrow> error + string" where
  "evalArg st (Lit s) = Inr s"
| "evalArg st (NotNullValues i) = bindE (elementE ''notNullValues'' i st) (\<lambda>j. Inr (formatArg j))"
| "evalArg st (AllValues i) = bindE (elementE ''allValues'' i st) (\<lambda>j. Inr (formatArg j))"

definition concatTask :: "string list \<Rightarrow> json \<Rightarrow> error + json" where
  "concatTask names st =
     bindE (mapE (evalArg st) (concatArgs names)) (\<lambda>args.
     bindE (formatE (concatTemplate names) args) (\<lambda>object.
     Inr (JObj [(''object'', object)])))"

subsection \<open>ToJson\<close>

definition toJsonTask :: "json \<Rightarrow> error + json" where
  "toJsonTask st =
     bindE (field ''object'' st) (\<lambda>object.
       case object of
         JStr s \<Rightarrow> (case StringToJson s of None \<Rightarrow> Inl InvalidJson | Some j \<Rightarrow> Inr j)
       | _ \<Rightarrow> Inl IntrinsicFailure)"

subsection \<open>The state machine and the construct\<close>

text \<open>\<^verbatim>\<open>a.next(b)\<close>: the output of \<open>a\<close> is the input of \<open>b\<close>; a failure ends the run.\<close>

definition thenNext :: "(json \<Rightarrow> error + json) \<Rightarrow> (json \<Rightarrow> error + json) \<Rightarrow> json \<Rightarrow> error + json" where
  "thenNext a b st = bindE (a st) b"

definition mergedState :: "execution \<Rightarrow> HandleOptionalParametersProps \<Rightarrow> json \<Rightarrow> error + json" where
  "mergedState ex props =
     thenNext (generatePlaceholderTask ex (allProperties props)) mergeWithPlaceholderValuesTask"

definition enumeratedState :: "execution \<Rightarrow> HandleOptionalParametersProps \<Rightarrow> json \<Rightarrow> error + json" where
  "enumeratedState ex props =
     thenNext (mergedState ex props) (optionalPropertiesAsArrayTask ex (allProperties props))"

definition mappedState :: "execution \<Rightarrow> HandleOptionalParametersProps \<Rightarrow> json \<Rightarrow> error + json" where
  "mappedState ex props =
     thenNext (enumeratedState ex props) (mapTask ex (dataProcessing props))"

definition concatState :: "execution \<Rightarrow> HandleOptionalParametersProps \<Rightarrow> json \<Rightarrow> error + json" where
  "concatState ex props =
     thenNext (mappedState ex props) (concatTask (allProperties props))"

definition stateMachine :: "execution \<Rightarrow> HandleOptionalParametersProps \<Rightarrow> json \<Rightarrow> error + json" where
  "stateMachine ex props = thenNext (concatState ex props) toJsonTask"

text \<open>
  What the constructor hands to the engine: the parameters of the states that depend
  on the properties. It returns for every configuration.
\<close>

record StateMachineDefinition =
  generatePlaceholder :: "(string \<times> string) list"
  optionalPropertiesAsArray :: "(string \<times> string) list"
  processObjectValues :: string
  concatObject :: string

definition HandleOptionalParameters :: "HandleOptionalParametersProps \<Rightarrow> build_error + StateMachineDefinition" where
  "HandleOptionalParameters props =
     Inr \<lparr> generatePlaceholder = placeholderParameters (allProperties props),
           optionalPropertiesAsArray =
             map (\<lambda>propertyName. (''$.output.'' @ propertyName, propertyName)) (allProperties props),
           processObjectValues = dataProcessing props,
           concatObject = object_expr (allProperties props) \<rparr>"

section \<open>Example run\<close>

text \<open>
  The configuration of \<^verbatim>\<open>src/test/TestStack.ts\<close>, shortened to one optional property,
  an execution whose \<^verbatim>\<open>dataProcessing\<close> is \<^verbatim>\<open>States.Array($.value)\<close>, and a
  configuration with a repeated and an empty name. Three more configurations declare
  a name that is not a plain identifier: one with a dot, one with a quote, and one
  that closes the quoted key and opens another.
\<close>

definition exampleExecution :: execution where
  "exampleExecution =
     \<lparr> executionId = ''arn:aws:states:execution:1'',
       uuid = (\<lambda>k. ''uuid-'' @ digits k),
       intrinsic = (\<lambda>e item.
         if e = ''States.Array($.value)''
         then (case member ''value'' item of None \<Rightarrow> None | Some v \<Rightarrow> Some (JArr [v]))
         else None),
       jsonPath = (\<lambda>path j. None) \<rparr>"

definition exampleProps :: HandleOptionalParametersProps where
  "exampleProps =
     \<lparr> requiredProperties = [''id''], optionalProperties = [''tag''],
       dataProcessing = ''States.Array($.value)'' \<rparr>"

definition invalidProps :: HandleOptionalParametersProps where
  "invalidProps =
     \<lparr> requiredProperties = [''id''], optionalProperties = [''id'', ''''],
       dataProcessing = ''States.Array($.value)'' \<rparr>"

definition dottedProps :: HandleOptionalParametersProps where
  "dottedProps =
     \<lparr> requiredProperties = [''a.b''], optionalProperties = [],
       dataProcessing = ''States.Array($.value)'' \<rparr>"

definition quotedProps :: HandleOptionalParametersProps where
  \<open>quotedProps =
     \<lparr> requiredProperties = [''a"b''], optionalProperties = [],
       dataProcessing = ''States.Array($.value)'' \<rparr>\<close>


section \<open>Notions for the analysis\<close>

subsection \<open>The value and the item of a declared property\<close>

text \<open>
  \<open>mergedValue\<close> is the value of the property \<open>n\<close> in the merged record of the input
  object \<open>kvs\<close>, and \<open>itemOf\<close> the item that \<^verbatim>\<open>Optional properties as array\<close> emits for
  it when the names are plain identifiers (lemma \<open>enumeratedState_JObj\<close>).
\<close>

definition mergedValue :: "execution \<Rightarrow> string list \<Rightarrow> (string \<times> json) list \<Rightarrow> string \<Rightarrow> json" where
  "mergedValue ex names kvs n =
     (case map_of (mergeObjects (placeholderObject ex names) kvs) n of None \<Rightarrow> JNull | Some v \<Rightarrow> v)"

definition itemOf :: "execution \<Rightarrow> string list \<Rightarrow> (string \<times> json) list \<Rightarrow> string \<Rightarrow> json" where
  "itemOf ex names kvs n = JObj [(''value'', mergedValue ex names kvs n), (''propertyName'', JStr n)]"

subsection \<open>Documents without repeated keys\<close>

text \<open>
  An association list can repeat a key, a JSON object of the engine cannot.
  \<open>canonical v\<close> is the document that the text of \<open>v\<close> denotes: in every object a
  repeated key keeps its first place and its last value. It is \<open>v\<close> itself when no
  object of \<open>v\<close> repeats a key (lemma \<open>canonical_wf\<close>).
\<close>

fun wf_json :: "json \<Rightarrow> bool" where
  "wf_json (JArr xs) = (\<forall>x \<in> set xs. wf_json x)"
| "wf_json (JObj kvs) = (distinct (map fst kvs) \<and> (\<forall>kv \<in> set kvs. wf_json (snd kv)))"
| "wf_json _ = True"

fun canonical :: "json \<Rightarrow> json" where
  "canonical (JArr xs) = JArr (map canonical xs)"
| "canonical (JObj kvs) = JObj (mergeObjects [] (map (\<lambda>kv. (fst kv, canonical (snd kv))) kvs))"
| "canonical v = v"

definition canonicalPairs :: "(string \<times> json) list \<Rightarrow> (string \<times> json) list" where
  "canonicalPairs kvs = map (\<lambda>kv. (fst kv, canonical (snd kv))) kvs"

subsection \<open>Fragments\<close>

text \<open>
  What one iteration of the Map state returns: \<open>None\<close> stands for the output of
  \<^verbatim>\<open>Null values\<close>, \<open>Some (n, t)\<close> for the output of \<^verbatim>\<open>Values\<close> on the property \<open>n\<close> with
  the processed value \<open>t\<close>; \<open>fragmentJson\<close> is that output. \<open>classify\<close> is the Choice
  state on the item of a declared property, followed by the processing.
\<close>

type_synonym fragment = "(string \<times> json) option"

definition pairText :: "string \<Rightarrow> json \<Rightarrow> string" where
  "pairText n t = quote # n @ quote # '': '' @ JsonToString t"

definition openingText :: "fragment \<Rightarrow> string" where
  "openingText f = (case f of None \<Rightarrow> [] | Some nt \<Rightarrow> pairText (fst nt) (snd nt))"

definition continuationText :: "fragment \<Rightarrow> string" where
  "continuationText f = (case f of None \<Rightarrow> [] | Some nt \<Rightarrow> CHR '','' # pairText (fst nt) (snd nt))"

definition fragmentJson :: "fragment \<Rightarrow> json" where
  "fragmentJson f =
     (case f of
        None \<Rightarrow> JObj [(''valueToConcat'', JStr ''''), (''separator'', JStr ''''), (''value'', JStr '''')]
      | Some nt \<Rightarrow> JObj [(''valueToConcat'', JStr (continuationText f)), (''value'', JStr (openingText f))])"

definition present :: "fragment list \<Rightarrow> (string \<times> json) list" where
  "present frs = List.map_filter (\<lambda>f. f) frs"

definition classify :: "execution \<Rightarrow> string \<Rightarrow> string list \<Rightarrow> (string \<times> json) list \<Rightarrow> string \<Rightarrow> error + fragment" where
  "classify ex dp names kvs n =
     (if mergedValue ex names kvs n = JStr (executionId ex) then Inr None
      else (case intrinsic ex dp (itemOf ex names kvs n) of
              None \<Rightarrow> Inl IntrinsicFailure
            | Some t \<Rightarrow> Inr (Some (n, t))))"

definition classifiedPresent :: "execution \<Rightarrow> string \<Rightarrow> string list \<Rightarrow> (string \<times> json) list \<Rightarrow> string \<times> json \<Rightarrow> bool" where
  "classifiedPresent ex dp names kvs nt =
     (mergedValue ex names kvs (fst nt) \<noteq> JStr (executionId ex)
      \<and> intrinsic ex dp (itemOf ex names kvs (fst nt)) = Some (snd nt))"

text \<open>
  \<^verbatim>\<open>States.Format\<close> places a property name between quotes as it is; the text is the
  one of a JSON string only for a name without quote, backslash and control
  character, as a plain identifier is.
\<close>

definition clean :: "string \<Rightarrow> bool" where
  "clean n = (\<forall>c \<in> set n. c \<noteq> quote \<and> c \<noteq> backslash \<and> \<not> is_control c)"

text \<open>
  The arguments of the call in \<^verbatim>\<open>Concat\<close>, the text it returns for \<open>n\<close> declared
  properties (lemma \<open>States_Format_concatTemplate\<close>), a text made of arguments that
  each follow some blanks, and the record that \<^verbatim>\<open>ToJson\<close> makes of the fragments
  (lemma \<open>StringToJson_fragments\<close>).
\<close>

definition fragmentArgs :: "fragment list \<Rightarrow> string list" where
  "fragmentArgs frs = ''{'' # openingText (hd frs) # map continuationText frs @ [''}'']"

definition concatText :: "nat \<Rightarrow> string list \<Rightarrow> string" where
  "concatText n args =
     '' '' @ concat (map (\<lambda>a. a @ '' '') (take n args)) @ concat (map (\<lambda>a. '' '' @ a) (drop n args))"

definition blank :: "string \<Rightarrow> bool" where
  "blank w = (\<forall>c \<in> set w. is_ws c)"

fun padded :: "string list \<Rightarrow> string list \<Rightarrow> string" where
  "padded (w # ws) (a # as) = w @ a @ padded ws as"
| "padded _ _ = []"

definition assemble :: "fragment list \<Rightarrow> error + json" where
  "assemble frs =
     (case frs of
        [] \<Rightarrow> Inl PathNotFound
      | f # _ \<Rightarrow>
          (case f of
             Some nt \<Rightarrow> Inr (JObj (mergeObjects [] (canonicalPairs (nt # present frs))))
           | None \<Rightarrow> if present frs = [] then Inr (JObj []) else Inl InvalidJson))"

subsection \<open>Auxiliary notions for the parser\<close>

text \<open>
  A number is read up to the first character that is not a digit, so the text after
  it must not start with one; the text of a value starts with a character that is
  neither blank nor a closing bracket nor a comma; \<open>roundtrip v\<close> says that the parser
  reads the text of \<open>v\<close> back, given fuel for its length.
\<close>

definition ok_rest :: "string \<Rightarrow> bool" where
  "ok_rest r = (case r of [] \<Rightarrow> True | c # _ \<Rightarrow> \<not> is_digit c)"

definition starts_value :: "string \<Rightarrow> bool" where
  "starts_value s =
     (case s of [] \<Rightarrow> False
      | c # _ \<Rightarrow> \<not> is_ws c \<and> c \<noteq> CHR '']'' \<and> c \<noteq> CHR ''}'' \<and> c \<noteq> CHR '','')"

definition roundtrip :: "json \<Rightarrow> bool" where
  "roundtrip v =
     (\<forall>n r. ok_rest r \<longrightarrow> length (JsonToString v) \<le> n \<longrightarrow>
        parse_value n (JsonToString v @ r) = Some (canonical v, r))"

definition memberText :: "string \<times> json \<Rightarrow> string" where
  "memberText kv = quote # escape (fst kv) @ quote # CHR '':'' # JsonToString (snd kv)"

subsection \<open>The join in the words of the specification\<close>



section \<open>Basic facts\<close>

lemma bindE_Inr [simp]: "bindE (Inr x) f = f x"
  by (simp add: bindE_def)

lemma bindE_Inl [simp]: "bindE (Inl e) f = Inl e"
  by (simp add: bindE_def)

lemma bindE_eq_Inr: "bindE m f = Inr y \<longleftrightarrow> (\<exists>x. m = Inr x \<and> f x = Inr y)"
  by (cases m) simp_all

lemma mapE_all_Inr: "(\<And>x. x \<in> set xs \<Longrightarrow> f x = Inr (g x)) \<Longrightarrow> mapE f xs = Inr (map g xs)"
  by (induction xs) simp_all

lemma mapE_eq_Inr: "mapE f xs = Inr ys \<longleftrightarrow> list_all2 (\<lambda>x y. f x = Inr y) xs ys"
proof (induction xs arbitrary: ys)
  case Nil
  then show ?case by auto
next
  case (Cons x xs)
  show ?case
  proof (cases ys)
    case Nil
    then show ?thesis by (simp split: sum.splits)
  next
    case (Cons y ys')
    have "mapE f (x # xs) = Inr (y # ys') \<longleftrightarrow> f x = Inr y \<and> mapE f xs = Inr ys'"
      by (cases "f x"; cases "mapE f xs") simp_all
    then show ?thesis
      using Cons.IH [of ys'] Cons by simp
  qed
qed

lemma field_JObj [simp]: "field k (JObj kvs) = (case map_of kvs k of None \<Rightarrow> Inl PathNotFound | Some v \<Rightarrow> Inr v)"
  by (simp add: field_def member_def)

lemma member_JObj [simp]: "member k (JObj kvs) = map_of kvs k"
  by (simp add: member_def)

lemma keys_spreadAfter: "fst ` set (spreadAfter kv acc) = insert (fst kv) (fst ` set acc)"
  by (auto simp: spreadAfter_def image_iff)


lemma keys_foldl_spreadAfter:
  "fst ` set (foldl (\<lambda>acc n. spreadAfter (f n, e) acc) acc ns) = fst ` set acc \<union> f ` set ns"
  by (induction ns arbitrary: acc) (auto simp: keys_spreadAfter)


lemma keys_placeholderParameters:
  "fst ` set (placeholderParameters names) = (\<lambda>n. n @ ''.$'') ` set names"
  unfolding placeholderParameters_def by (simp add: keys_foldl_spreadAfter)


lemma keys_placeholderObject: "fst ` set (placeholderObject ex names) = set names"
proof -
  have "fst ` set (placeholderObject ex names)
          = (\<lambda>k. take (length k - 2) k) ` fst ` set (placeholderParameters names)"
  proof -
    have "fst ` set (placeholderObject ex names)
            = (\<lambda>k. take (length k - 2) k) ` fst ` set (map snd (enumerate 0 (placeholderParameters names)))"
      unfolding placeholderObject_def by (simp add: image_image del: map_snd_enumerate)
    then show ?thesis by simp
  qed
  also have "\<dots> = set names"
    by (simp add: keys_placeholderParameters image_image)
  finally show ?thesis .
qed


lemma map_of_mergeObjects: "map_of (mergeObjects xs ys) = map_of xs ++ map_of (rev ys)"
  unfolding mergeObjects_def
proof (induction ys arbitrary: xs)
  case Nil
  then show ?case by simp
next
  case (Cons y ys)
  have "map_of (AList.update (fst y) (snd y) xs) ++ map_of (rev ys)
          = map_of xs ++ (map_of [y] ++ map_of (rev ys))"
    by (cases y, rule ext) (simp add: update_conv' map_add_def split: option.splits)
  then show ?case
    by (simp add: Cons.IH)
qed

lemma keys_mergeObjects: "fst ` set (mergeObjects xs ys) = fst ` set xs \<union> fst ` set ys"
proof -
  have "dom (map_of (mergeObjects xs ys)) = dom (map_of xs) \<union> dom (map_of (rev ys))"
    by (simp add: map_of_mergeObjects Un_commute)
  then show ?thesis
    by (simp add: dom_map_of_conv_image_fst)
qed

lemma mergedState_JObj:
  "mergedState ex props (JObj kvs) =
     Inr (JObj [(''output'', JObj (mergeObjects (placeholderObject ex (allProperties props)) kvs)),
                (''input'', JObj kvs)])"
  by (simp add: mergedState_def thenNext_def generatePlaceholderTask_def
      mergeWithPlaceholderValuesTask_def JsonMerge_def)

lemma merged_defined:
  assumes "n \<in> set names"
  shows "\<exists>v. map_of (mergeObjects (placeholderObject ex names) kvs) n = Some v"
proof -
  have "n \<in> fst ` set (mergeObjects (placeholderObject ex names) kvs)"
    using assms by (simp add: keys_mergeObjects keys_placeholderObject)
  then have "n \<in> dom (map_of (mergeObjects (placeholderObject ex names) kvs))"
    by (simp add: dom_map_of_conv_image_fst)
  then show ?thesis by blast
qed

subsection \<open>The path of an item's value\<close>

lemma segments_no_dot: "CHR ''.'' \<notin> set n \<Longrightarrow> segments n = [n]"
  by (induction n) auto

lemma segments_dot: "CHR ''.'' \<notin> set p \<Longrightarrow> segments (p @ CHR ''.'' # n) = p # segments n"
  by (induction p) auto

lemma plain_name_no_dot: "plain_name n \<Longrightarrow> CHR ''.'' \<notin> set n"
  by (auto simp: plain_name_def is_name_char_def list_all_iff)

lemma plain_name_path_step: "plain_name n \<Longrightarrow> path_step n"
  by (auto simp: plain_name_def path_step_def is_name_char_def is_control_def list_all_iff)

lemma segments_output:
  "CHR ''.'' \<notin> set n \<Longrightarrow> segments (''$.output.'' @ n) = [''$'', ''output'', n]"
  using segments_dot [of "''$''" "''output.'' @ n"] segments_dot [of "''output''" n]
  by (simp add: segments_no_dot)

lemma evalPath_output:
  assumes "plain_name n"
  shows "evalPath ex (''$.output.'' @ n) st = bindE (field ''output'' st) (field n)"
proof -
  have seg: "segments (''$.output.'' @ n) = [''$'', ''output'', n]"
    using segments_output [OF plain_name_no_dot [OF assms]] .
  have "path_step ''output''"
    by (simp add: path_step_def is_control_def)
  moreover have "descend [n] = field n"
  proof (rule ext)
    fix x show "descend [n] x = field n x"
      by (cases "field n x") simp_all
  qed
  ultimately show ?thesis
    unfolding evalPath_def seg
    using plain_name_path_step [OF assms] by simp
qed

lemma enumeratedState_JObj:
  assumes "\<forall>n \<in> set (allProperties props). plain_name n"
  shows "enumeratedState ex props (JObj kvs) =
     Inr (JObj [(''transformedInput'',
                   JArr (map (itemOf ex (allProperties props) kvs) (allProperties props))),
                (''input'', JObj kvs)])"
proof -
  let ?names = "allProperties props"
  let ?merged = "mergeObjects (placeholderObject ex ?names) kvs"
  let ?st = "JObj [(''output'', JObj ?merged), (''input'', JObj kvs)]"
  have "mapE (\<lambda>propertyName.
              bindE (evalPath ex (''$.output.'' @ propertyName) ?st) (\<lambda>v.
              Inr (JObj [(''value'', v), (''propertyName'', JStr propertyName)]))) ?names
          = Inr (map (itemOf ex ?names kvs) ?names)"
  proof (rule mapE_all_Inr)
    fix n assume n: "n \<in> set ?names"
    then obtain v where "map_of ?merged n = Some v"
      using merged_defined by blast
    moreover have "plain_name n"
      using assms n by blast
    then have "evalPath ex (''$.output.'' @ n) ?st = field n (JObj ?merged)"
      using evalPath_output [of n ex ?st] by simp
    ultimately show "bindE (evalPath ex (''$.output.'' @ n) ?st) (\<lambda>v.
              Inr (JObj [(''value'', v), (''propertyName'', JStr n)])) = Inr (itemOf ex ?names kvs n)"
      by (simp add: itemOf_def mergedValue_def)
  qed
  then show ?thesis
    by (simp add: enumeratedState_def thenNext_def mergedState_JObj optionalPropertiesAsArrayTask_def)
qed


section \<open>The call that Concat makes\<close>

text \<open>
  The expression that the constructor builds for \<^verbatim>\<open>object.$\<close> is the call of
  \<^verbatim>\<open>States.Format\<close> with the template \<open>concatTemplate\<close> between quotes and the arguments
  \<open>concatArgs\<close>, in this order.
\<close>

lemma foldl_append_const: "foldl (\<lambda>s _. s @ a) init xs = init @ concat (map (\<lambda>_. a) xs)"
  by (induction xs arbitrary: init) simp_all

lemma foldl_append_map: "foldl (\<lambda>s i. s @ g i) init xs = init @ concat (map g xs)"
  by (induction xs arbitrary: init) simp_all

lemma object_expr_call:
  "object_expr names
     = ''States.Format('' @ [CHR 0x27] @ concatTemplate names @ [CHR 0x27]
         @ '', '{', $.notNullValues[0]  ''
         @ concat (map (\<lambda>index. '', $.allValues['' @ digits index @ '']'') [0 ..< length names])
         @ '' , '}')''"
  unfolding object_expr_def format_expr_def string_expr_def concatTemplate_def
    foldl_append_const foldl_append_map
  by simp

lemma object_expr_example:
  "object_expr [''requiredProperty'', ''optionalProperty1'', ''optionalProperty2'']
     = ''States.Format(' {} {} {}  {} {} {}', '{', $.notNullValues[0]  , $.allValues[0], $.allValues[1], $.allValues[2] , '}')''"
  by code_simp

text \<open>
  The sample of the source's comments: from the output of the Map state that the
  comment above \<^verbatim>\<open>mapTask\<close> shows, \<^verbatim>\<open>Concat\<close> makes the text that the comment above
  \<^verbatim>\<open>concatTask\<close> shows.
\<close>
lemma concat_documented_output:
  \<open>concatTask [''requiredProperty'', ''optionalProperty1'', ''optionalProperty2'']
     (JObj [(''notNullValues'', JArr [JStr ''"requiredProperty": ["bar"]'', JStr ''"optionalProperty1": [1]'', JStr '''']),
            (''allValues'', JArr [JStr '',"requiredProperty": ["bar"]'', JStr '',"optionalProperty1": [1]'', JStr ''''])])
   = Inr (JObj [(''object'', JStr '' { "requiredProperty": ["bar"] ,"requiredProperty": ["bar"]  ,"optionalProperty1": [1]  }'')])\<close>
  by code_simp

section \<open>The enumerated items\<close>

lemma example_names_plain: "\<forall>n \<in> set (allProperties exampleProps). plain_name n"
  by (simp add: allProperties_def exampleProps_def plain_name_def is_name_char_def)

text \<open>
  C7, as stated, fails: the declared name \<open>a.b\<close> is spliced into the path
  \<^verbatim>\<open>$.output.a.b\<close>, which looks for the member \<open>b\<close> of a member \<open>a\<close>; the merged record of
  the input \<^verbatim>\<open>{"a.b": 0}\<close> has only the member \<open>a.b\<close>, so the state fails and emits no
  item at all.
\<close>

theorem dotted_name_stops_enumeration:
  "length (requiredProperties dottedProps) + length (optionalProperties dottedProps) = 1
   \<and> mergedState exampleExecution dottedProps (JObj [(''a.b'', JNum 0)])
       = Inr (JObj [(''output'', JObj [(''a.b'', JNum 0)]), (''input'', JObj [(''a.b'', JNum 0)])])
   \<and> enumeratedState exampleExecution dottedProps (JObj [(''a.b'', JNum 0)]) = Inl PathNotFound"
  by code_simp

text \<open>
  C7, as amended: when every declared name is a plain identifier, for every input
  object the state \<^verbatim>\<open>Optional properties as array\<close> emits exactly as many items as there
  are declared properties, the required ones first and then the optional ones, each
  list in the caller's order, however many of them the input supplies.
\<close>

theorem enumerator_emits_propertyCount_items:
  assumes "\<forall>n \<in> set (allProperties props). plain_name n"
  shows "\<exists>items. enumeratedState ex props (JObj kvs)
             = Inr (JObj [(''transformedInput'', JArr items), (''input'', JObj kvs)])
     \<and> length items = length (requiredProperties props) + length (optionalProperties props)
     \<and> map (member ''propertyName'') items
         = map (\<lambda>n. Some (JStr n)) (requiredProperties props @ optionalProperties props)"
  using enumeratedState_JObj [OF assms, of ex kvs]
  by (simp add: allProperties_def itemOf_def comp_def)

theorem enumerator_emits_propertyCount_items_witness:
  "list_all plain_name (allProperties exampleProps)
   \<and> (\<exists>items. enumeratedState exampleExecution exampleProps (JObj [(''id'', JStr ''x'')])
             = Inr (JObj [(''transformedInput'', JArr items), (''input'', JObj [(''id'', JStr ''x'')])])
     \<and> length items = length (requiredProperties exampleProps) + length (optionalProperties exampleProps)
     \<and> map (member ''propertyName'') items
         = map (\<lambda>n. Some (JStr n)) (requiredProperties exampleProps @ optionalProperties exampleProps))"
  using enumerator_emits_propertyCount_items [OF example_names_plain, of exampleExecution "[(''id'', JStr ''x'')]"]
    example_names_plain
  by (simp add: list_all_iff)

section \<open>The presence check\<close>




section \<open>The constructor\<close>

text \<open>
  C5, as amended: the constructor checks nothing about the names; it returns a
  definition for every configuration, also when a name is repeated or empty.
\<close>

theorem constructor_never_fails:
  "\<exists>d. HandleOptionalParameters props = Inr d"
  by (simp add: HandleOptionalParameters_def)

text \<open>
  C5, as stated, fails: a configuration with a repeated and an empty name is not
  rejected with \<open>InvalidSchema\<close>.
\<close>

theorem duplicate_and_empty_names_accepted:
  "\<not> distinct (allProperties invalidProps) \<and> [] \<in> set (allProperties invalidProps)
   \<and> HandleOptionalParameters invalidProps \<noteq> Inl InvalidSchema"
  by (simp add: HandleOptionalParameters_def invalidProps_def allProperties_def)

section \<open>The run on an input without the optional property\<close>

text \<open>
  C2, at the failing input: the item of the absent property \<open>tag\<close> carries the token
  generated for it, and the Choice state sends it through the processing instead of
  emitting the empty fragment.
\<close>

theorem placeholder_value_is_processed:
  \<open>map_of (placeholderObject exampleExecution (allProperties exampleProps)) ''tag''
     = Some (JStr ''uuid-0'')
   \<and> choiceTask exampleExecution (dataProcessing exampleProps)
        (JObj [(''value'', JStr ''uuid-0''), (''propertyName'', JStr ''tag'')])
     = Inr (JObj [(''valueToConcat'', JStr '',"tag": ["uuid-0"]''),
                  (''value'', JStr ''"tag": ["uuid-0"]'')])\<close>
  by code_simp

text \<open>
  C1, at the failing input: the output of the run has the key \<open>tag\<close>, which the input
  does not define, mapped to the processed token.
\<close>

theorem absent_property_reaches_output:
  "stateMachine exampleExecution exampleProps (JObj [(''id'', JStr ''x'')])
     = Inr (JObj [(''id'', JArr [JStr ''x'']), (''tag'', JArr [JStr ''uuid-0''])])"
  by code_simp

section \<open>StringToJson reads back what JsonToString writes\<close>

subsection \<open>Numbers and strings\<close>

declare digits.simps [simp del]

lemma of_char_digit: "d < 10 \<Longrightarrow> (of_char (char_of (48 + d :: nat)) :: nat) = 48 + d"
  by simp

lemma is_digit_char_of: "d < 10 \<Longrightarrow> is_digit (char_of (48 + d :: nat))"
  by (simp add: is_digit_def)

lemma digits_all_digit: "\<forall>c \<in> set (digits n). is_digit c"
proof (induction n rule: digits.induct)
  case (1 n)
  show ?case
  proof (cases "n < 10")
    case True
    then show ?thesis
      by (subst digits.simps) (simp add: is_digit_char_of)
  next
    case False
    then show ?thesis
      using 1 by (subst digits.simps) (simp add: is_digit_char_of)
  qed
qed

lemma digits_not_Nil: "digits n \<noteq> []"
  by (subst digits.simps) simp

lemma number_of_snoc: "number_of (ds @ [c]) = 10 * number_of ds + (of_char c - 48)"
  by (simp add: number_of_def)

lemma number_of_digits: "number_of (digits n) = n"
proof (induction n rule: digits.induct)
  case (1 n)
  show ?case
  proof (cases "n < 10")
    case True
    then show ?thesis
      by (subst digits.simps) (simp add: number_of_def)
  next
    case False
    then have "number_of (digits n) = 10 * number_of (digits (n div 10)) + n mod 10"
      by (subst digits.simps) (simp add: number_of_snoc)
    then show ?thesis
      using 1 False by simp
  qed
qed

lemma takeWhile_digits: "ok_rest r \<Longrightarrow> takeWhile is_digit (digits n @ r) = digits n"
  using digits_all_digit [of n]
  by (cases r) (simp_all add: ok_rest_def takeWhile_append2 takeWhile_append1)

lemma dropWhile_digits: "ok_rest r \<Longrightarrow> dropWhile is_digit (digits n @ r) = r"
  using digits_all_digit [of n]
  by (cases r) (simp_all add: ok_rest_def dropWhile_append2 dropWhile_append1)

lemma digits_small: "n < 10 \<Longrightarrow> digits n = [char_of (48 + n)]"
  by (subst digits.simps) simp

lemma digits_leading: "0 < n \<Longrightarrow> hd (digits n) \<noteq> CHR ''0''"
proof (induction n rule: digits.induct)
  case (1 n)
  show ?case
  proof (cases "n < 10")
    case True
    have "(of_char (char_of (48 + n) :: char) :: nat) = 48 + n"
      using True by (simp add: of_char_digit)
    moreover have "(of_char (CHR ''0'') :: nat) = 48"
      by simp
    ultimately have "(char_of (48 + n) :: char) \<noteq> CHR ''0''"
      using 1(2) by (metis add_cancel_right_right less_numeral_extra(3))
    then show ?thesis
      using True by (simp add: digits_small)
  next
    case False
    then have "hd (digits n) = hd (digits (n div 10))"
      using digits_not_Nil [of "n div 10"] by (subst digits.simps) simp
    moreover have "0 < n div 10"
      using False by simp
    ultimately show ?thesis
      using 1(1) False by simp
  qed
qed

lemma digits_no_leading_zero:
  assumes "digits n = d # ds" and "d = CHR ''0''"
  shows "ds = []"
proof (cases "n < 10")
  case True
  then show ?thesis
    using assms(1) by (simp add: digits_small)
next
  case False
  then have "hd (digits n) \<noteq> CHR ''0''"
    by (intro digits_leading) simp
  then show ?thesis
    using assms by simp
qed

lemma digits_hd: "\<exists>c cs. digits n = c # cs \<and> is_digit c"
  using digits_all_digit [of n] digits_not_Nil [of n] by (cases "digits n") auto

lemma parse_digits_digits:
  assumes "ok_rest r"
  shows "parse_digits (digits n @ r) = Some (n, r)"
proof -
  obtain d ds where d: "digits n = d # ds"
    using digits_not_Nil [of n] by (cases "digits n") simp_all
  have "\<not> (d = CHR ''0'' \<and> ds \<noteq> [])"
    using digits_no_leading_zero [OF d] by blast
  moreover have "takeWhile is_digit (digits n @ r) = d # ds"
    using takeWhile_digits [OF assms, of n] unfolding d .
  moreover have "number_of (d # ds) = n"
    using number_of_digits [of n] d by simp
  ultimately show ?thesis
    using assms by (simp add: parse_digits_def dropWhile_digits)
qed

lemma parse_number_digits:
  assumes "ok_rest r"
  shows "parse_number (digits n @ r) = Some (JNum (int n), r)"
proof -
  obtain c cs where c: "digits n = c # cs" "is_digit c"
    using digits_hd by blast
  have "c \<noteq> CHR ''-''"
    using c(2) by (auto simp: is_digit_def)
  then have "parse_number (digits n @ r)
               = (case parse_digits (digits n @ r) of
                    None \<Rightarrow> None | Some (m, r') \<Rightarrow> Some (JNum (int m), r'))"
    using c(1) by (simp add: parse_number_def)
  then show ?thesis
    using assms by (simp add: parse_digits_digits)
qed

lemma parse_number_minus:
  assumes "ok_rest r"
  shows "parse_number (CHR ''-'' # digits n @ r) = Some (JNum (- int n), r)"
  using assms by (simp add: parse_number_def parse_digits_digits)

lemma hexval_hexdigit: "d < 16 \<Longrightarrow> hexval (hexdigit d) = Some d"
  by (auto simp: hexval_def hexdigit_def Let_def)

lemma unicode_escape_control:
  assumes "is_control c"
  shows "unicode_escape (CHR ''0'' # CHR ''0'' # hexdigit (of_char c div 16) # hexdigit (of_char c mod 16) # r)
           = Some ([c], 4)"
proof -
  let ?n = "of_char c :: nat"
  have n: "?n < 32"
    using assms by (simp add: is_control_def)
  have z: "hexval (CHR ''0'') = Some 0"
    by (simp add: hexval_def)
  have a: "hexval (hexdigit (?n div 16)) = Some (?n div 16)"
    using n by (intro hexval_hexdigit) simp
  have b: "hexval (hexdigit (?n mod 16)) = Some (?n mod 16)"
    by (intro hexval_hexdigit) simp
  have "hex4 (CHR ''0'' # CHR ''0'' # hexdigit (?n div 16) # hexdigit (?n mod 16) # r) = Some ?n"
    by (simp add: hex4_def z a b)
  then show ?thesis
    using n by (simp add: unicode_escape_def utf8_def)
qed

lemma parse_string_body_escape: "parse_string_body (escape s @ quote # r) = Some (s, r)"
proof (induction s)
  case Nil
  then show ?case by (simp add: escape_def)
next
  case (Cons c s)
  have IH: "parse_string_body (escape s @ quote # r) = Some (s, r)"
    by (rule Cons.IH)
  have e: "escape (c # s) @ quote # r = escape_char c @ escape s @ quote # r"
    by (simp add: escape_def)
  consider (q) "c = quote \<or> c = backslash"
    | (short) "c \<in> {CHR 0x08, CHR 0x09, CHR 0x0A, CHR 0x0C, CHR 0x0D}"
    | (ctl) "c \<noteq> quote" "c \<noteq> backslash" "c \<notin> {CHR 0x08, CHR 0x09, CHR 0x0A, CHR 0x0C, CHR 0x0D}" "is_control c"
    | (plain) "c \<noteq> quote" "c \<noteq> backslash" "\<not> is_control c"
    by (auto simp: is_control_def)
  then show ?case
  proof cases
    case q
    then show ?thesis
      unfolding e using IH by (auto simp: escape_char_def simple_escape_def quote_def backslash_def)
  next
    case short
    then show ?thesis
      unfolding e using IH by (auto simp: escape_char_def simple_escape_def quote_def backslash_def)
  next
    case ctl
    have "escape_char c = [backslash, CHR ''u'', CHR ''0'', CHR ''0'',
         hexdigit (of_char c div 16), hexdigit (of_char c mod 16)]"
      using ctl by (simp add: escape_char_def)
    then show ?thesis
      unfolding e using IH unicode_escape_control [OF ctl(4)]
      by (simp add: quote_def backslash_def)
  next
    case plain
    then have "escape_char c = [c]"
      by (auto simp: escape_char_def is_control_def)
    then show ?thesis
      unfolding e using IH plain by simp
  qed
qed

subsection \<open>Blanks and first characters\<close>

lemma skip_ws_blank: "blank w \<Longrightarrow> skip_ws (w @ s) = skip_ws s"
  by (simp add: blank_def skip_ws_def dropWhile_append2)

lemma skip_ws_Cons: "\<not> is_ws c \<Longrightarrow> skip_ws (c # s) = c # s"
  by (simp add: skip_ws_def)

lemma skip_ws_starts_value: "starts_value s \<Longrightarrow> skip_ws s = s"
  by (cases s) (simp_all add: starts_value_def skip_ws_Cons)

lemma starts_value_append: "starts_value s \<Longrightarrow> starts_value (s @ r)"
  by (cases s) (simp_all add: starts_value_def)

lemma is_digit_not_special:
  "is_digit c \<Longrightarrow> \<not> is_ws c \<and> c \<noteq> CHR '']'' \<and> c \<noteq> CHR ''}'' \<and> c \<noteq> CHR '',''
     \<and> c \<noteq> CHR ''{'' \<and> c \<noteq> CHR ''['' \<and> c \<noteq> quote \<and> c \<noteq> CHR ''-''
     \<and> c \<noteq> CHR ''t'' \<and> c \<noteq> CHR ''f'' \<and> c \<noteq> CHR ''n''"
  by (auto simp: is_digit_def is_ws_def quote_def)

lemma starts_value_JsonToString: "starts_value (JsonToString v)"
proof (cases v)
  case (JNum i)
  obtain c cs where "digits (nat i) = c # cs" "is_digit c"
    using digits_hd by blast
  then show ?thesis
    using JNum is_digit_not_special [of c] by (simp add: starts_value_def is_ws_def)
qed (simp_all add: starts_value_def is_ws_def quote_def)

lemma ok_rest_simps [simp]:
  "ok_rest []" "\<not> is_digit c \<Longrightarrow> ok_rest (c # r)"
  by (simp_all add: ok_rest_def)

lemma not_digit_simps [simp]:
  "\<not> is_digit (CHR '','')" "\<not> is_digit (CHR '']'')" "\<not> is_digit (CHR ''}'')" "\<not> is_digit (CHR '' '')"
  by (simp_all add: is_digit_def)

lemma ok_rest_blank: "blank w \<Longrightarrow> \<not> is_digit c \<Longrightarrow> ok_rest (w @ c # r)"
  by (cases w) (auto simp: ok_rest_def blank_def dest: is_digit_not_special)

subsection \<open>Scalars\<close>

lemma parse_value_JNull: "parse_value (Suc n) (''null'' @ r) = Some (JNull, r)"
  by (simp add: quote_def)

lemma parse_value_JBool: "parse_value (Suc n) ((if b then ''true'' else ''false'') @ r) = Some (JBool b, r)"
  by (simp add: quote_def)

lemma parse_value_JStr: "parse_value (Suc n) (quote # escape s @ quote # r) = Some (JStr s, r)"
  by (simp add: quote_def parse_string_body_escape [unfolded quote_def])

lemma parse_value_JNum:
  assumes "ok_rest r"
  shows "parse_value (Suc n) (JsonToString (JNum i) @ r) = Some (JNum i, r)"
proof (cases "i < 0")
  case True
  have "parse_value (Suc n) (CHR ''-'' # digits (nat (- i)) @ r) = parse_number (CHR ''-'' # digits (nat (- i)) @ r)"
    by (simp add: quote_def)
  then show ?thesis
    using True assms by (simp add: parse_number_minus)
next
  case False
  obtain c cs where c: "digits (nat i) = c # cs" "is_digit c"
    using digits_hd by blast
  have "parse_value (Suc n) ((c # cs) @ r) = parse_number ((c # cs) @ r)"
    using is_digit_not_special [OF c(2)] by simp
  then show ?thesis
    using False assms c(1) parse_number_digits [of r "nat i"] by simp
qed

subsection \<open>Arrays and objects\<close>

lemma roundtripD:
  "roundtrip v \<Longrightarrow> ok_rest r \<Longrightarrow> length (JsonToString v) \<le> n \<Longrightarrow>
     parse_value n (JsonToString v @ r) = Some (canonical v, r)"
  by (simp add: roundtrip_def)

lemma mergeObjects_Cons: "mergeObjects acc (kv # kvs) = mergeObjects (AList.update (fst kv) (snd kv) acc) kvs"
  by (simp add: mergeObjects_def)

lemma mergeObjects_Nil: "mergeObjects acc [] = acc"
  by (simp add: mergeObjects_def)

lemma parse_elements_step:
  assumes "parse_value n (vt @ w @ c # rest) = Some (v, w @ c # rest)"
    and "blank w" and "\<not> is_ws c"
  shows "parse_elements (Suc n) acc (vt @ w @ c # rest)
         = (if c = CHR '','' then parse_elements n (acc @ [v]) (skip_ws rest)
            else if c = CHR '']'' then Some (JArr (acc @ [v]), rest)
            else None)"
  using assms by (simp add: skip_ws_blank skip_ws_Cons)

lemma parse_members_step:
  assumes "parse_value n (vt @ w3 @ c # rest) = Some (v, w3 @ c # rest)"
    and "starts_value vt"
    and "blank w1" and "blank w2" and "blank w3" and "\<not> is_ws c"
  shows "parse_members (Suc n) acc
           (quote # escape k @ quote # w1 @ CHR '':'' # w2 @ vt @ w3 @ c # rest)
         = (if c = CHR '','' then parse_members n (AList.update k v acc) (skip_ws rest)
            else if c = CHR ''}'' then Some (JObj (AList.update k v acc), rest)
            else None)"
proof -
  have colon: "skip_ws (w1 @ CHR '':'' # w2 @ vt @ w3 @ c # rest) = CHR '':'' # w2 @ vt @ w3 @ c # rest"
    using assms(3) by (simp add: skip_ws_blank skip_ws_Cons is_ws_def)
  have val: "skip_ws (w2 @ vt @ w3 @ c # rest) = vt @ w3 @ c # rest"
    using assms(2,4) starts_value_append [of vt "w3 @ c # rest"]
    by (simp add: skip_ws_blank skip_ws_starts_value)
  have after: "skip_ws (w3 @ c # rest) = c # rest"
    using assms(5,6) by (simp add: skip_ws_blank skip_ws_Cons)
  show ?thesis
    by (simp add: parse_string_body_escape colon val after assms(1))
qed

lemma join_Cons: "join sep (x # xs) = (if xs = [] then x else x @ sep @ join sep xs)"
  by (cases xs) simp_all

lemma length_join_Cons: "xs \<noteq> [] \<Longrightarrow> length (join sep (x # xs)) = length x + length sep + length (join sep xs)"
  by (simp add: join_Cons)

lemma parse_elements_printed:
  assumes "\<forall>x \<in> set xs. roundtrip x" and "xs \<noteq> []"
    and "length (join '','' (map JsonToString xs)) < n"
  shows "parse_elements n acc (join '','' (map JsonToString xs) @ CHR '']'' # r)
           = Some (JArr (acc @ map canonical xs), r)"
  using assms
proof (induction xs arbitrary: n acc)
  case Nil
  then show ?case by simp
next
  case (Cons x xs)
  obtain m where n: "n = Suc m"
    using Cons.prems(3) by (cases n) simp_all
  show ?case
  proof (cases "xs = []")
    case True
    have "parse_value m (JsonToString x @ [] @ CHR '']'' # r) = Some (canonical x, [] @ CHR '']'' # r)"
      using Cons.prems True n by (simp add: roundtripD)
    from parse_elements_step [OF this, of acc]
    show ?thesis
      using True n by (simp add: blank_def is_ws_def)
  next
    case False
    let ?rest = "join '','' (map JsonToString xs) @ CHR '']'' # r"
    have len: "length (JsonToString x) + 1 + length (join '','' (map JsonToString xs)) < n"
      using Cons.prems(3) False by (simp add: join_Cons)
    have "parse_value m (JsonToString x @ [] @ CHR '','' # ?rest) = Some (canonical x, [] @ CHR '','' # ?rest)"
      using Cons.prems(1) len n by (simp add: roundtripD)
    from parse_elements_step [OF this, of acc]
    have step: "parse_elements n acc (JsonToString x @ CHR '','' # ?rest)
                  = parse_elements m (acc @ [canonical x]) (skip_ws ?rest)"
      using n by (simp add: blank_def is_ws_def)
    obtain y ys where ys: "xs = y # ys"
      using False by (cases xs) simp_all
    have "starts_value ?rest"
      using starts_value_JsonToString [of y] ys
      by (simp add: join_Cons starts_value_append)
    then have "skip_ws ?rest = ?rest"
      by (rule skip_ws_starts_value)
    moreover have "parse_elements m (acc @ [canonical x]) ?rest
                     = Some (JArr ((acc @ [canonical x]) @ map canonical xs), r)"
      using Cons.prems(1) False len n by (intro Cons.IH) simp_all
    ultimately show ?thesis
      using step False by (simp add: join_Cons)
  qed
qed

lemma parse_members_printed:
  assumes "\<forall>kv \<in> set kvs. roundtrip (snd kv)" and "kvs \<noteq> []"
    and "length (join '','' (map memberText kvs)) < n"
  shows "parse_members n acc (join '','' (map memberText kvs) @ CHR ''}'' # r)
           = Some (JObj (mergeObjects acc (map (\<lambda>kv. (fst kv, canonical (snd kv))) kvs)), r)"
  using assms
proof (induction kvs arbitrary: n acc)
  case Nil
  then show ?case by simp
next
  case (Cons kv kvs)
  obtain k v where kv: "kv = (k, v)"
    by (cases kv)
  obtain m where n: "n = Suc m"
    using Cons.prems(3) by (cases n) simp_all
  have rt: "roundtrip v"
    using Cons.prems(1) kv by simp
  show ?case
  proof (cases "kvs = []")
    case True
    have "length (JsonToString v) \<le> m"
      using Cons.prems(3) True n kv by (simp add: memberText_def)
    then have "parse_value m (JsonToString v @ [] @ CHR ''}'' # r) = Some (canonical v, [] @ CHR ''}'' # r)"
      using rt by (simp add: roundtripD)
    from parse_members_step [OF this starts_value_JsonToString, of "[]" "[]" acc k]
    show ?thesis
      using True n kv by (simp add: blank_def is_ws_def memberText_def mergeObjects_Cons mergeObjects_Nil)
  next
    case False
    let ?rest = "join '','' (map memberText kvs) @ CHR ''}'' # r"
    have len: "length (memberText kv) + 1 + length (join '','' (map memberText kvs)) < n"
      using Cons.prems(3) False by (simp add: join_Cons)
    then have "length (JsonToString v) \<le> m"
      using n kv by (simp add: memberText_def)
    then have "parse_value m (JsonToString v @ [] @ CHR '','' # ?rest) = Some (canonical v, [] @ CHR '','' # ?rest)"
      using rt by (simp add: roundtripD)
    from parse_members_step [OF this starts_value_JsonToString, of "[]" "[]" acc k]
    have step: "parse_members n acc (memberText kv @ CHR '','' # ?rest)
                  = parse_members m (AList.update k (canonical v) acc) (skip_ws ?rest)"
      using n kv by (simp add: blank_def is_ws_def memberText_def)
    obtain y ys where ys: "kvs = y # ys"
      using False by (cases kvs) simp_all
    have "starts_value ?rest"
      using ys by (simp add: join_Cons starts_value_def memberText_def is_ws_def quote_def)
    then have "skip_ws ?rest = ?rest"
      by (rule skip_ws_starts_value)
    moreover have "parse_members m (AList.update k (canonical v) acc) ?rest
        = Some (JObj (mergeObjects (AList.update k (canonical v) acc)
                        (map (\<lambda>kv. (fst kv, canonical (snd kv))) kvs)), r)"
      using Cons.prems(1) False len n kv by (intro Cons.IH) simp_all
    ultimately show ?thesis
      using step False kv by (simp add: join_Cons mergeObjects_Cons)
  qed
qed

lemma JsonToString_JObj: "JsonToString (JObj kvs) = CHR ''{'' # join '','' (map memberText kvs) @ ''}''"
  by (simp add: memberText_def [abs_def])

lemma roundtrip_all: "roundtrip v"
proof (induction v)
  case JNull
  show ?case
    unfolding roundtrip_def
  proof (intro allI impI)
    fix n r assume "length (JsonToString JNull) \<le> n"
    then obtain m where "n = Suc m" by (cases n) simp_all
    then show "parse_value n (JsonToString JNull @ r) = Some (canonical JNull, r)"
      using parse_value_JNull [of m r] by simp
  qed
next
  case (JBool b)
  show ?case
    unfolding roundtrip_def
  proof (intro allI impI)
    fix n r assume "length (JsonToString (JBool b)) \<le> n"
    then obtain m where "n = Suc m" by (cases n) (simp_all split: if_splits)
    then show "parse_value n (JsonToString (JBool b) @ r) = Some (canonical (JBool b), r)"
      using parse_value_JBool [of m b r] by simp
  qed
next
  case (JNum i)
  show ?case
    unfolding roundtrip_def
  proof (intro allI impI)
    fix n r assume r: "ok_rest r" and "length (JsonToString (JNum i)) \<le> n"
    then obtain m where "n = Suc m"
      using digits_not_Nil by (cases n) (simp_all split: if_splits)
    then show "parse_value n (JsonToString (JNum i) @ r) = Some (canonical (JNum i), r)"
      using parse_value_JNum [OF r, of m i] by simp
  qed
next
  case (JStr s)
  show ?case
    unfolding roundtrip_def
  proof (intro allI impI)
    fix n r assume "length (JsonToString (JStr s)) \<le> n"
    then obtain m where "n = Suc m" by (cases n) simp_all
    then show "parse_value n (JsonToString (JStr s) @ r) = Some (canonical (JStr s), r)"
      using parse_value_JStr [of m s r] by simp
  qed
next
  case (JArr xs)
  have all: "\<forall>x \<in> set xs. roundtrip x"
    using JArr by simp
  show ?case
    unfolding roundtrip_def
  proof (intro allI impI)
    fix n r assume len: "length (JsonToString (JArr xs)) \<le> n"
    then obtain m where n: "n = Suc m" by (cases n) simp_all
    show "parse_value n (JsonToString (JArr xs) @ r) = Some (canonical (JArr xs), r)"
    proof (cases "xs = []")
      case True
      then show ?thesis
        using n by (simp add: skip_ws_Cons is_ws_def)
    next
      case False
      let ?body = "join '','' (map JsonToString xs) @ CHR '']'' # r"
      obtain y ys where ys: "xs = y # ys"
        using False by (cases xs) simp_all
      have sv: "starts_value ?body"
        using starts_value_JsonToString [of y] ys by (simp add: join_Cons starts_value_append)
      then obtain d ds where d: "?body = d # ds" "d \<noteq> CHR '']''"
        by (cases ?body) (simp_all add: starts_value_def)
      have "parse_elements m [] ?body = Some (JArr ([] @ map canonical xs), r)"
        using all False len n by (intro parse_elements_printed) simp_all
      then show ?thesis
        using n d skip_ws_starts_value [OF sv] by simp
    qed
  qed
next
  case (JObj kvs)
  have all: "\<forall>kv \<in> set kvs. roundtrip (snd kv)"
    using JObj by (auto simp: snds.simps)
  show ?case
    unfolding roundtrip_def
  proof (intro allI impI)
    fix n r assume len: "length (JsonToString (JObj kvs)) \<le> n"
    then obtain m where n: "n = Suc m" by (cases n) simp_all
    show "parse_value n (JsonToString (JObj kvs) @ r) = Some (canonical (JObj kvs), r)"
    proof (cases "kvs = []")
      case True
      then show ?thesis
        using n by (simp add: skip_ws_Cons is_ws_def mergeObjects_Nil)
    next
      case False
      let ?body = "join '','' (map memberText kvs) @ CHR ''}'' # r"
      obtain y ys where ys: "kvs = y # ys"
        using False by (cases kvs) simp_all
      have sv: "starts_value ?body"
        using ys by (simp add: join_Cons starts_value_def memberText_def is_ws_def quote_def)
      then obtain d ds where d: "?body = d # ds" "d \<noteq> CHR ''}''"
        by (cases ?body) (simp_all add: starts_value_def)
      have "length (join '','' (map memberText kvs)) + 2 \<le> n"
        using len unfolding JsonToString_JObj by simp
      then have "parse_members m [] ?body
          = Some (JObj (mergeObjects [] (map (\<lambda>kv. (fst kv, canonical (snd kv))) kvs)), r)"
        using all False n by (intro parse_members_printed) simp_all
      then show ?thesis
        using n d skip_ws_starts_value [OF sv] by (simp add: JsonToString_JObj del: JsonToString.simps)
    qed
  qed
qed

subsection \<open>The canonical form of a document without repeated keys\<close>

lemma update_fresh: "k \<notin> fst ` set acc \<Longrightarrow> AList.update k v acc = acc @ [(k, v)]"
  by (induction acc) auto

lemma mergeObjects_distinct: "distinct (map fst (acc @ kvs)) \<Longrightarrow> mergeObjects acc kvs = acc @ kvs"
proof (induction kvs arbitrary: acc)
  case Nil
  then show ?case by (simp add: mergeObjects_Nil)
next
  case (Cons kv kvs)
  have "AList.update (fst kv) (snd kv) acc = acc @ [kv]"
    using Cons.prems update_fresh [of "fst kv" acc "snd kv"] by auto
  then show ?case
    using Cons.IH [of "acc @ [kv]"] Cons.prems by (simp add: mergeObjects_Cons)
qed

lemma canonical_wf: "wf_json v \<Longrightarrow> canonical v = v"
proof (induction v)
  case (JArr xs)
  then show ?case by (simp add: map_idI)
next
  case (JObj kvs)
  have "map (\<lambda>kv. (fst kv, canonical (snd kv))) kvs = kvs"
    using JObj by (intro map_idI) (auto simp: snds.simps prod_eq_iff)
  then show ?case
    using JObj.prems by (simp add: mergeObjects_distinct)
qed simp_all

section \<open>The states after the enumeration\<close>

subsection \<open>Map over all properties\<close>

lemma passValues_item:
  "passValues (JObj [(''value'', t), (''propertyName'', JStr n)]) = Inr (fragmentJson (Some (n, t)))"
  by (simp add: passValues_def formatE_def formatArg_def fragmentJson_def continuationText_def
      openingText_def pairText_def quote_def)

lemma field_itemOf:
  "field ''value'' (itemOf ex names kvs n) = Inr (mergedValue ex names kvs n)"
  "field ''propertyName'' (itemOf ex names kvs n) = Inr (JStr n)"
  by (simp_all add: itemOf_def)

lemma processObjectValuesTask_itemOf:
  "processObjectValuesTask ex dp (itemOf ex names kvs n)
     = (case intrinsic ex dp (itemOf ex names kvs n) of
          None \<Rightarrow> Inl IntrinsicFailure
        | Some t \<Rightarrow> Inr (JObj [(''value'', t), (''propertyName'', JStr n)]))"
  by (simp add: processObjectValuesTask_def field_itemOf split: option.splits)

lemma choiceTask_itemOf:
  "choiceTask ex dp (itemOf ex names kvs n)
     = bindE (classify ex dp names kvs n) (\<lambda>f. Inr (fragmentJson f))"
proof (cases "mergedValue ex names kvs n = JStr (executionId ex)")
  case True
  then show ?thesis
    by (simp add: choiceTask_def classify_def field_itemOf passNullValues_def fragmentJson_def)
next
  case False
  then show ?thesis
    by (cases "intrinsic ex dp (itemOf ex names kvs n)")
      (simp_all add: choiceTask_def classify_def field_itemOf processObjectValuesTask_itemOf
        passValues_item)
qed

lemma mapE_map_bind:
  assumes "\<And>x. x \<in> set xs \<Longrightarrow> f (g x) = bindE (h x) (\<lambda>y. Inr (k y))"
  shows "mapE f (map g xs) = bindE (mapE h xs) (\<lambda>ys. Inr (map k ys))"
  using assms
proof (induction xs)
  case Nil
  then show ?case by simp
next
  case (Cons x xs)
  then have "mapE f (map g xs) = bindE (mapE h xs) (\<lambda>ys. Inr (map k ys))"
    by simp
  moreover have "f (g x) = bindE (h x) (\<lambda>y. Inr (k y))"
    using Cons.prems by simp
  ultimately show ?case
    by (cases "h x"; cases "mapE h xs") simp_all
qed

lemma mapE_length: "mapE f xs = Inr ys \<Longrightarrow> length ys = length xs"
  by (simp add: mapE_eq_Inr list_all2_lengthD)

lemma mapE_append:
  "mapE f (xs @ ys) = bindE (mapE f xs) (\<lambda>as. bindE (mapE f ys) (\<lambda>bs. Inr (as @ bs)))"
proof (induction xs)
  case Nil
  then show ?case by (cases "mapE f ys") simp_all
next
  case (Cons x xs)
  then show ?case
    by (cases "f x"; cases "mapE f xs"; cases "mapE f ys") simp_all
qed

lemma continuationText_not_space: "continuationText f \<noteq> '' ''"
  by (cases f) (simp_all add: continuationText_def)

lemma member_fragmentJson:
  "member ''valueToConcat'' (fragmentJson f) = Some (JStr (continuationText f))"
  "member ''value'' (fragmentJson f) = Some (JStr (openingText f))"
  by (cases f; simp add: fragmentJson_def continuationText_def openingText_def)+

lemma resultSelector_fragments:
  "resultSelector (map fragmentJson frs)
     = Inr (JObj [(''notNullValues'', JArr (map (\<lambda>f. JStr (openingText f)) frs)),
                  (''allValues'', JArr (map (\<lambda>f. JStr (continuationText f)) frs))])"
proof -
  have keep: "filter (\<lambda>r. member ''valueToConcat'' r \<noteq> None
                 \<and> member ''valueToConcat'' r \<noteq> Some (JStr '' '')) (map fragmentJson frs)
               = map fragmentJson frs"
    by (simp add: member_fragmentJson continuationText_not_space del: member_JObj)
  have a: "List.map_filter (member ''value'') (map fragmentJson frs) = map (\<lambda>f. JStr (openingText f)) frs"
    by (induction frs) (simp_all add: map_filter_simps member_fragmentJson del: member_JObj)
  have b: "List.map_filter (member ''valueToConcat'') (map fragmentJson frs)
             = map (\<lambda>f. JStr (continuationText f)) frs"
    by (induction frs) (simp_all add: map_filter_simps member_fragmentJson del: member_JObj)
  show ?thesis
    unfolding resultSelector_def keep a b ..
qed

lemma mappedState_JObj:
  assumes "\<forall>n \<in> set (allProperties props). plain_name n"
  shows "mappedState ex props (JObj kvs)
     = bindE (mapE (classify ex (dataProcessing props) (allProperties props) kvs) (allProperties props))
         (\<lambda>frs. resultSelector (map fragmentJson frs))"
proof -
  let ?names = "allProperties props"
  have "mapE (choiceTask ex (dataProcessing props)) (map (itemOf ex ?names kvs) ?names)
          = bindE (mapE (classify ex (dataProcessing props) ?names kvs) ?names)
              (\<lambda>frs. Inr (map fragmentJson frs))"
    by (rule mapE_map_bind) (rule choiceTask_itemOf)
  then show ?thesis
    by (cases "mapE (classify ex (dataProcessing props) ?names kvs) ?names")
      (simp_all add: mappedState_def thenNext_def enumeratedState_JObj [OF assms] mapTask_def)
qed

subsection \<open>Concat\<close>

lemma States_Format_plain:
  "c \<noteq> CHR ''{'' \<Longrightarrow>
     States_Format (c # s) args = (case States_Format s args of None \<Rightarrow> None | Some r \<Rightarrow> Some (c # r))"
  by (cases s) simp_all

lemma States_Format_slot:
  "States_Format (CHR ''{'' # CHR ''}'' # t) (a # as)
     = (case States_Format t as of None \<Rightarrow> None | Some r \<Rightarrow> Some (a @ r))"
  by simp

lemma States_Format_slots:
  "length as = length xs \<Longrightarrow>
     States_Format (concat (map (\<lambda>_. ''{} '') xs) @ t) (as @ bs)
       = (case States_Format t bs of
            None \<Rightarrow> None
          | Some r \<Rightarrow> Some (concat (map (\<lambda>a. a @ '' '') as) @ r))"
proof (induction xs arbitrary: as)
  case Nil
  then show ?case by (simp split: option.splits)
next
  case (Cons x xs)
  then obtain a as' where as: "as = a # as'" "length as' = length xs"
    by (cases as) simp_all
  have "States_Format (concat (map (\<lambda>_. ''{} '') (x # xs)) @ t) (as @ bs)
          = States_Format (CHR ''{'' # CHR ''}'' # CHR '' '' # (concat (map (\<lambda>_. ''{} '') xs) @ t)) (a # (as' @ bs))"
    using as by simp
  also have "\<dots> = (case States_Format (CHR '' '' # (concat (map (\<lambda>_. ''{} '') xs) @ t)) (as' @ bs) of
                      None \<Rightarrow> None | Some r \<Rightarrow> Some (a @ r))"
    by (rule States_Format_slot)
  also have "\<dots> = (case States_Format (concat (map (\<lambda>_. ''{} '') xs) @ t) (as' @ bs) of
                      None \<Rightarrow> None | Some r \<Rightarrow> Some (a @ CHR '' '' # r))"
    by (simp add: States_Format_plain split: option.splits)
  finally show ?case
    using Cons.IH [OF as(2)] as(1) by (simp split: option.splits)
qed

lemma length3: "length d = 3 \<Longrightarrow> \<exists>x y z. d = [x, y, z]"
  by (auto simp: numeral_3_eq_3 length_Suc_conv)

lemma States_Format_concatTemplate:
  assumes "length args = length names + 3"
  shows "States_Format (concatTemplate names) args = Some (concatText (length names) args)"
proof -
  let ?n = "length names"
  have "length (drop ?n args) = 3"
    using assms by simp
  then obtain x y z where last3: "drop ?n args = [x, y, z]"
    using length3 by blast
  have split: "args = take ?n args @ [x, y, z]"
    using last3 by (metis append_take_drop_id)
  have len: "length (take ?n args) = length names"
    using assms by simp
  have tail: "States_Format '' {} {} {}'' [x, y, z] = Some ('' '' @ x @ '' '' @ y @ '' '' @ z)"
    by simp
  have "States_Format (concatTemplate names) (take ?n args @ [x, y, z])
          = (case States_Format (concat (map (\<lambda>_. ''{} '') names) @ '' {} {} {}'') (take ?n args @ [x, y, z]) of
               None \<Rightarrow> None | Some r \<Rightarrow> Some (CHR '' '' # r))"
    unfolding concatTemplate_def by (simp add: States_Format_plain)
  also have "\<dots> = Some (CHR '' '' # concat (map (\<lambda>a. a @ '' '') (take ?n args)) @ '' '' @ x @ '' '' @ y @ '' '' @ z)"
    unfolding States_Format_slots [OF len] tail by simp
  finally show ?thesis
    using split last3 by (simp add: concatText_def)
qed

lemma mapE_evalArg_AllValues:
  assumes "member ''allValues'' st = Some (JArr (map JStr as))"
  shows "mapE (evalArg st) (map AllValues [0 ..< length as]) = Inr as"
proof -
  have "mapE (evalArg st) (map AllValues [0 ..< length as]) = Inr (map (\<lambda>i. as ! i) [0 ..< length as])"
    unfolding mapE_eq_Inr
    by (simp add: list_all2_conv_all_nth elementE_def field_def assms nthE_def formatArg_def)
  then show ?thesis
    by (simp add: map_nth)
qed

lemma length_fragmentArgs: "length (fragmentArgs frs) = length frs + 3"
  by (simp add: fragmentArgs_def)

lemma concatTask_fragments:
  assumes "length frs = length names" and "frs \<noteq> []"
  shows "bindE (resultSelector (map fragmentJson frs)) (concatTask names)
           = Inr (JObj [(''object'', JStr (concatText (length names) (fragmentArgs frs)))])"
proof -
  let ?st = "JObj [(''notNullValues'', JArr (map (\<lambda>f. JStr (openingText f)) frs)),
                   (''allValues'', JArr (map (\<lambda>f. JStr (continuationText f)) frs))]"
  have all: "mapE (evalArg ?st) (map AllValues [0 ..< length names]) = Inr (map continuationText frs)"
    using mapE_evalArg_AllValues [of ?st "map continuationText frs"] assms(1)
    by (simp add: comp_def)
  obtain f fs where f: "frs = f # fs"
    using assms(2) by (cases frs) simp_all
  have first: "evalArg ?st (NotNullValues 0) = Inr (openingText (hd frs))"
    using f by (simp add: elementE_def nthE_def formatArg_def)
  have "mapE (evalArg ?st) (concatArgs names) = Inr (fragmentArgs frs)"
    unfolding concatArgs_def fragmentArgs_def
    by (simp add: first mapE_append all del: evalArg.simps(2))
  then show ?thesis
    using States_Format_concatTemplate [of "fragmentArgs frs" names] assms(1)
    by (simp add: resultSelector_fragments concatTask_def formatE_def length_fragmentArgs)
qed

lemma concatTask_no_fragments:
  "bindE (resultSelector (map fragmentJson [])) (concatTask names) = Inl PathNotFound"
  by (simp add: resultSelector_def concatTask_def concatArgs_def elementE_def nthE_def
      map_filter_simps)

lemma concatState_JObj:
  assumes "\<forall>n \<in> set (allProperties props). plain_name n"
  shows "concatState ex props (JObj kvs)
     = bindE (mapE (classify ex (dataProcessing props) (allProperties props) kvs) (allProperties props))
         (\<lambda>frs. if frs = [] then Inl PathNotFound
                 else Inr (JObj [(''object'',
                        JStr (concatText (length (allProperties props)) (fragmentArgs frs)))]))"
proof (cases "mapE (classify ex (dataProcessing props) (allProperties props) kvs) (allProperties props)")
  case (Inl e)
  then show ?thesis
    by (simp add: concatState_def thenNext_def mappedState_JObj [OF assms])
next
  case (Inr frs)
  then have len: "length frs = length (allProperties props)"
    by (rule mapE_length)
  show ?thesis
  proof (cases "frs = []")
    case True
    then show ?thesis
      using Inr concatTask_no_fragments
      by (simp add: concatState_def thenNext_def mappedState_JObj [OF assms])
  next
    case False
    then show ?thesis
      using Inr concatTask_fragments [OF len False]
      by (simp add: concatState_def thenNext_def mappedState_JObj [OF assms])
  qed
qed

subsection \<open>The text of Concat, argument by argument\<close>

lemma escape_char_clean: "c \<noteq> quote \<Longrightarrow> c \<noteq> backslash \<Longrightarrow> \<not> is_control c \<Longrightarrow> escape_char c = [c]"
  by (auto simp: escape_char_def is_control_def)

lemma escape_clean: "clean n \<Longrightarrow> escape n = n"
  by (induction n) (simp_all add: clean_def escape_def escape_char_clean)

lemma plain_name_clean: "plain_name n \<Longrightarrow> clean n"
  by (auto simp: plain_name_def clean_def is_name_char_def list_all_iff quote_def backslash_def
      is_control_def)

lemma present_simps [simp]:
  "present [] = []"
  "present (None # frs) = present frs"
  "present (Some nt # frs) = nt # present frs"
  by (simp_all add: present_def map_filter_simps)

lemma canonicalPairs_simps [simp]:
  "canonicalPairs [] = []"
  "canonicalPairs (kv # kvs) = (fst kv, canonical (snd kv)) # canonicalPairs kvs"
  by (simp_all add: canonicalPairs_def)

lemma concatText_Suc: "concatText (Suc n) (a # args) = CHR '' '' # a @ concatText n args"
  by (simp add: concatText_def)

lemma padded_spaces:
  "concat (map (\<lambda>a. '' '' @ a) as) = padded (replicate (length as) '' '') as"
  by (induction as) simp_all

lemma concatText_padded:
  "length args = n + Suc k \<Longrightarrow>
     \<exists>ws. length ws = length args \<and> (\<forall>w \<in> set ws. blank w) \<and> concatText n args = padded ws args"
proof (induction n arbitrary: args)
  case 0
  then obtain x rest where args: "args = x # rest"
    by (cases args) simp_all
  have "concatText 0 args = padded (''  '' # replicate (length rest) '' '') args"
    using args padded_spaces [of rest] by (simp add: concatText_def)
  moreover have "\<forall>w \<in> set (''  '' # replicate (length rest) '' ''). blank w"
    by (auto simp: blank_def is_ws_def)
  ultimately show ?case
    using args by (intro exI [of _ "''  '' # replicate (length rest) '' ''"]) simp
next
  case (Suc n)
  then obtain a args' where args: "args = a # args'" "length args' = n + Suc k"
    by (cases args) simp_all
  obtain ws where ws: "length ws = length args'" "\<forall>w \<in> set ws. blank w"
      "concatText n args' = padded ws args'"
    using Suc.IH [OF args(2)] by blast
  have "concatText (Suc n) args = padded ('' '' # ws) args"
    using args ws(3) by (simp add: concatText_Suc)
  moreover have "\<forall>w \<in> set ('' '' # ws). blank w"
    using ws(2) by (auto simp: blank_def is_ws_def)
  ultimately show ?case
    using args ws(1) by (intro exI [of _ "'' '' # ws"]) simp
qed

lemma padded_append:
  "length ws = length as \<Longrightarrow> padded (ws @ us) (as @ bs) = padded ws as @ padded us bs"
  by (induction ws as rule: list_induct2) simp_all

lemma blank_append: "blank (u @ w) \<longleftrightarrow> blank u \<and> blank w"
  by (auto simp: blank_def)

lemma blank_Nil: "blank []"
  by (simp add: blank_def)

lemma blank_space: "blank '' ''"
  by (simp add: blank_def is_ws_def)

lemma continuationText_simps:
  "continuationText None = []"
  "continuationText (Some nt) = CHR '','' # pairText (fst nt) (snd nt)"
  by (simp_all add: continuationText_def)

lemma pairText_escape:
  "clean k \<Longrightarrow> pairText k t = quote # escape k @ quote # [] @ CHR '':'' # '' '' @ JsonToString t"
  by (simp add: pairText_def escape_clean)

lemma parse_members_pair:
  assumes "clean k" and "blank w" and "\<not> is_ws c" and "\<not> is_digit c"
    and "length (JsonToString t) \<le> n"
  shows "parse_members (Suc n) acc (pairText k t @ w @ c # rest)
         = (if c = CHR '','' then parse_members n (AList.update k (canonical t) acc) (skip_ws rest)
            else if c = CHR ''}'' then Some (JObj (AList.update k (canonical t) acc), rest)
            else None)"
proof -
  have "parse_value n (JsonToString t @ w @ c # rest) = Some (canonical t, w @ c # rest)"
    using assms by (intro roundtripD roundtrip_all ok_rest_blank)
  from parse_members_step [OF this starts_value_JsonToString blank_Nil blank_space assms(2,3), of acc k]
  show ?thesis
    using assms(1) by (simp add: pairText_escape)
qed

lemma starts_value_pairText: "starts_value (pairText k t @ s)"
  by (simp add: pairText_def starts_value_def is_ws_def quote_def)

lemma parse_members_tail:
  assumes "length ws = length frs"
    and "\<forall>w \<in> set ws. blank w" and "blank w0" and "blank w1"
    and "\<forall>nt \<in> set (present frs). clean (fst nt)" and "clean k"
    and "length (pairText k t @ w0 @ padded ws (map continuationText frs) @ w1) < n"
  shows "parse_members n acc
           (pairText k t @ w0 @ padded ws (map continuationText frs) @ w1 @ CHR ''}'' # r)
         = Some (JObj (mergeObjects (AList.update k (canonical t) acc) (canonicalPairs (present frs))), r)"
  using assms
proof (induction ws frs arbitrary: w0 k t acc n rule: list_induct2)
  case Nil
  obtain m where n: "n = Suc m"
    using Nil.prems(6) by (cases n) simp_all
  have "length (JsonToString t) \<le> m"
    using Nil.prems(6) n by (simp add: pairText_def)
  from parse_members_pair [OF Nil.prems(5) _ _ _ this, of "w0 @ w1" "CHR ''}''" acc r]
  show ?case
    using Nil.prems(2,3) n by (simp add: blank_append is_ws_def mergeObjects_Nil)
next
  case (Cons w ws f frs)
  obtain m where n: "n = Suc m"
    using Cons.prems(6) by (cases n) simp_all
  show ?case
  proof (cases f)
    case None
    have "parse_members n acc
            (pairText k t @ (w0 @ w) @ padded ws (map continuationText frs) @ w1 @ CHR ''}'' # r)
          = Some (JObj (mergeObjects (AList.update k (canonical t) acc) (canonicalPairs (present frs))), r)"
      using Cons.prems None by (intro Cons.IH) (simp_all add: blank_append continuationText_simps)
    then show ?thesis
      using None by (simp add: continuationText_simps)
  next
    case (Some nt)
    obtain k' t' where nt: "nt = (k', t')"
      by (cases nt)
    let ?rest = "pairText k' t' @ [] @ padded ws (map continuationText frs) @ w1 @ CHR ''}'' # r"
    have "length (JsonToString t) \<le> m"
      using Cons.prems(6) n by (simp add: pairText_def)
    from parse_members_pair [OF Cons.prems(5) _ _ _ this, of "w0 @ w" "CHR '',''" acc ?rest]
    have "parse_members n acc (pairText k t @ (w0 @ w) @ CHR '','' # ?rest)
            = parse_members m (AList.update k (canonical t) acc) (skip_ws ?rest)"
      using Cons.prems(1,2) n by (simp add: blank_append is_ws_def)
    also have "skip_ws ?rest = ?rest"
      by (rule skip_ws_starts_value) (rule starts_value_pairText)
    also have "parse_members m (AList.update k (canonical t) acc) ?rest
        = Some (JObj (mergeObjects (AList.update k' (canonical t') (AList.update k (canonical t) acc))
                        (canonicalPairs (present frs))), r)"
      using Cons.prems Some nt n
      by (intro Cons.IH) (simp_all add: blank_Nil continuationText_simps)
    finally show ?thesis
      using Some nt by (simp add: continuationText_simps mergeObjects_Cons)
  qed
qed

subsection \<open>ToJson\<close>

lemma parse_members_not_quote: "c \<noteq> quote \<Longrightarrow> parse_members n acc (c # s) = None"
  by (cases n) simp_all

lemma padded_absent:
  "length ws = length frs \<Longrightarrow> present frs = [] \<Longrightarrow> padded ws (map continuationText frs) = concat ws"
proof (induction ws frs rule: list_induct2)
  case Nil
  then show ?case by simp
next
  case (Cons w ws f frs)
  then show ?case
    by (cases f) (simp_all add: continuationText_simps)
qed

lemma padded_first_present:
  "length ws = length frs \<Longrightarrow> \<forall>w \<in> set ws. blank w \<Longrightarrow> present frs \<noteq> [] \<Longrightarrow>
     \<exists>b rest. blank b \<and> padded ws (map continuationText frs) = b @ CHR '','' # rest"
proof (induction ws frs rule: list_induct2)
  case Nil
  then show ?case by simp
next
  case (Cons w ws f frs)
  show ?case
  proof (cases f)
    case None
    then obtain b rest where "blank b" "padded ws (map continuationText frs) = b @ CHR '','' # rest"
      using Cons by auto
    then have "blank (w @ b) \<and> padded (w # ws) (map continuationText (f # frs)) = (w @ b) @ CHR '','' # rest"
      using None Cons.prems(1) by (simp add: continuationText_simps blank_append)
    then show ?thesis by blast
  next
    case (Some nt)
    then have "blank w \<and> padded (w # ws) (map continuationText (f # frs))
                 = w @ CHR '','' # (pairText (fst nt) (snd nt) @ padded ws (map continuationText frs))"
      using Cons.prems(1) by (simp add: continuationText_simps)
    then show ?thesis by blast
  qed
qed

lemma fragmentArgs_padded:
  assumes "length ws = length frs + 3" and "\<forall>w \<in> set ws. blank w"
  shows "\<exists>wa wb wm wz. blank wa \<and> blank wb \<and> blank wz \<and> length wm = length frs
           \<and> (\<forall>w \<in> set wm. blank w)
           \<and> padded ws (fragmentArgs frs)
               = wa @ CHR ''{'' # wb @ openingText (hd frs) @ padded wm (map continuationText frs)
                   @ wz @ ''}''"
proof -
  obtain wa wb ws' where ws: "ws = wa # wb # ws'" "length ws' = Suc (length frs)"
    using assms(1) by (cases ws; cases "tl ws") auto
  then have "ws' \<noteq> []"
    by auto
  then obtain wm wz where ws': "ws' = wm @ [wz]"
    by (metis append_butlast_last_id)
  then have len: "length wm = length frs"
    using ws(2) by simp
  have "padded ws' (map continuationText frs @ [''}'']) = padded wm (map continuationText frs) @ wz @ ''}''"
    unfolding ws' using len by (subst padded_append) simp_all
  then have "padded ws (fragmentArgs frs)
               = wa @ CHR ''{'' # wb @ openingText (hd frs) @ padded wm (map continuationText frs)
                   @ wz @ ''}''"
    using ws(1) by (simp add: fragmentArgs_def)
  moreover have "blank wa" "blank wb" "blank wz" "\<forall>w \<in> set wm. blank w"
    using assms(2) ws(1) ws' by simp_all
  ultimately show ?thesis
    using len by blast
qed

lemma StringToJson_braced:
  assumes "blank wa" and "blank wb" and "skip_ws body = d # ds"
    and "N = length (wa @ wb @ body)"
  shows "StringToJson (wa @ CHR ''{'' # wb @ body)
     = (if d = CHR ''}'' then (if skip_ws ds = [] then Some (JObj []) else None)
        else (case parse_members N [] (d # ds) of
                None \<Rightarrow> None
              | Some (v, r) \<Rightarrow> if skip_ws r = [] then Some v else None))"
proof -
  have a: "skip_ws (wa @ CHR ''{'' # wb @ body) = CHR ''{'' # wb @ body"
    using assms(1) by (simp add: skip_ws_blank skip_ws_Cons is_ws_def)
  have b: "skip_ws (wb @ body) = d # ds"
    using assms(2,3) by (simp add: skip_ws_blank)
  have c: "length (wa @ CHR ''{'' # wb @ body) = Suc N"
    using assms(4) by simp
  show ?thesis
    unfolding StringToJson_def a c
    by (simp add: b split: option.splits del: parse_members.simps)
qed

lemma concat_blank: "\<forall>w \<in> set ws. blank w \<Longrightarrow> blank (concat ws)"
  by (auto simp: blank_def)

lemma skip_ws_Nil: "skip_ws [] = []"
  by (simp add: skip_ws_def)

lemma StringToJson_fragments:
  assumes "frs \<noteq> []" and "length frs = n" and "\<forall>nt \<in> set (present frs). clean (fst nt)"
  shows "(case StringToJson (concatText n (fragmentArgs frs)) of
            None \<Rightarrow> Inl InvalidJson | Some j \<Rightarrow> Inr j) = assemble frs"
proof -
  obtain ws where ws: "length ws = length (fragmentArgs frs)" "\<forall>w \<in> set ws. blank w"
      "concatText n (fragmentArgs frs) = padded ws (fragmentArgs frs)"
    using concatText_padded [of "fragmentArgs frs" n 2] assms(2)
    by (auto simp: length_fragmentArgs)
  obtain wa wb wm wz where w: "blank wa" "blank wb" "blank wz" "length wm = length frs"
      "\<forall>w \<in> set wm. blank w"
      "padded ws (fragmentArgs frs)
         = wa @ CHR ''{'' # wb @ openingText (hd frs) @ padded wm (map continuationText frs) @ wz @ ''}''"
    using fragmentArgs_padded [of ws frs] ws(1,2) by (auto simp: length_fragmentArgs)
  let ?tail = "padded wm (map continuationText frs)"
  let ?body = "openingText (hd frs) @ ?tail @ wz @ ''}''"
  obtain f fs where frs: "frs = f # fs"
    using assms(1) by (cases frs) simp_all
  have shape: "concatText n (fragmentArgs frs) = wa @ CHR ''{'' # wb @ ?body"
    using ws(3) w(6) by simp
  show ?thesis
  proof (cases f)
    case (Some nt)
    obtain k t where nt: "nt = (k, t)"
      by (cases nt)
    have k: "clean k"
      using assms(3) frs Some nt by simp
    define N where "N = length (wa @ wb @ ?body)"
    have body: "?body = pairText k t @ [] @ ?tail @ wz @ CHR ''}'' # []"
      using frs Some nt by (simp add: openingText_def)
    have "length (pairText k t @ [] @ ?tail @ wz) < N"
      unfolding N_def body by simp
    then have pm: "parse_members N [] (pairText k t @ [] @ ?tail @ wz @ CHR ''}'' # [])
            = Some (JObj (mergeObjects (AList.update k (canonical t) []) (canonicalPairs (present frs))), [])"
      using w(3,4,5) assms(3) k
      by (intro parse_members_tail) (simp_all add: blank_Nil)
    obtain ds where ds: "?body = quote # ds"
      unfolding body by (simp add: pairText_def)
    have sk: "skip_ws ?body = quote # ds"
      unfolding ds by (simp add: skip_ws_Cons is_ws_def quote_def)
    have "parse_members N [] (quote # ds)
            = Some (JObj (mergeObjects (AList.update k (canonical t) []) (canonicalPairs (present frs))), [])"
      using pm unfolding body [symmetric] ds .
    then have "StringToJson (wa @ CHR ''{'' # wb @ ?body)
        = Some (JObj (mergeObjects (AList.update k (canonical t) []) (canonicalPairs (present frs))))"
      unfolding StringToJson_braced [OF w(1,2) sk N_def]
      by (simp add: quote_def skip_ws_Nil del: parse_members.simps)
    then show ?thesis
      unfolding shape using frs Some nt by (simp add: assemble_def mergeObjects_Cons)
  next
    case None
    show ?thesis
    proof (cases "present frs = []")
      case True
      have "blank (?tail @ wz)"
        using padded_absent [OF w(4) True] w(3,5) by (simp add: blank_append concat_blank)
      then have "skip_ws ?body = ''}''"
        using frs None skip_ws_blank [of "?tail @ wz" "''}''"]
        by (simp add: openingText_def skip_ws_Cons is_ws_def)
      then have "StringToJson (wa @ CHR ''{'' # wb @ ?body) = Some (JObj [])"
        by (simp add: StringToJson_braced [OF w(1,2) _ refl] skip_ws_Nil del: parse_members.simps)
      then show ?thesis
        unfolding shape using frs None True by (simp add: assemble_def)
    next
      case False
      obtain b rest where b: "blank b" "?tail = b @ CHR '','' # rest"
        using padded_first_present [OF w(4,5) False] by blast
      have "skip_ws ?body = CHR '','' # rest @ wz @ ''}''"
        using frs None b skip_ws_blank [of b "CHR '','' # rest @ wz @ ''}''"]
        by (simp add: openingText_def skip_ws_Cons is_ws_def)
      then have "StringToJson (wa @ CHR ''{'' # wb @ ?body) = None"
        by (simp add: StringToJson_braced [OF w(1,2) _ refl] parse_members_not_quote quote_def
            del: parse_members.simps)
      then show ?thesis
        unfolding shape using frs None False by (simp add: assemble_def)
    qed
  qed
qed

section \<open>The whole run\<close>

lemma toJsonTask_object:
  "toJsonTask (JObj [(''object'', JStr s)])
     = (case StringToJson s of None \<Rightarrow> Inl InvalidJson | Some j \<Rightarrow> Inr j)"
  by (simp add: toJsonTask_def)

lemma classify_Some:
  "classify ex dp names kvs n = Inr (Some nt) \<longleftrightarrow> fst nt = n \<and> classifiedPresent ex dp names kvs nt"
  by (cases nt) (auto simp: classify_def classifiedPresent_def split: option.splits)

lemma classify_None:
  "classify ex dp names kvs n = Inr None \<Longrightarrow> \<not> classifiedPresent ex dp names kvs (n, t)"
  by (simp add: classify_def classifiedPresent_def split: if_splits option.splits)

lemma classifiedPresent_unique:
  "classifiedPresent ex dp names kvs nt \<Longrightarrow> classifiedPresent ex dp names kvs nt' \<Longrightarrow>
     fst nt = fst nt' \<Longrightarrow> nt = nt'"
  by (simp add: classifiedPresent_def prod_eq_iff)

lemma present_classified_iff:
  assumes "mapE (classify ex dp names kvs) ns = Inr frs"
  shows "nt \<in> set (present frs) \<longleftrightarrow> fst nt \<in> set ns \<and> classifiedPresent ex dp names kvs nt"
  using assms
proof (induction ns arbitrary: frs)
  case Nil
  then show ?case by simp
next
  case (Cons n ns)
  obtain f fs where frs: "frs = f # fs" "classify ex dp names kvs n = Inr f"
      "mapE (classify ex dp names kvs) ns = Inr fs"
    using Cons.prems by (auto split: sum.splits)
  note IH = Cons.IH [OF frs(3)]
  show ?case
  proof (cases f)
    case None
    have "\<not> classifiedPresent ex dp names kvs (n, snd nt)"
      using frs(2) None by (intro classify_None) simp
    then have "fst nt = n \<Longrightarrow> \<not> classifiedPresent ex dp names kvs nt"
      by (cases nt) simp
    then show ?thesis
      unfolding frs(1) None using IH by auto
  next
    case (Some nt')
    have nt': "fst nt' = n" "classifiedPresent ex dp names kvs nt'"
      using frs(2) Some classify_Some by blast+
    have "nt = nt' \<longleftrightarrow> fst nt = n \<and> classifiedPresent ex dp names kvs nt"
      using nt' classifiedPresent_unique [of ex dp names kvs nt nt'] by auto
    then show ?thesis
      unfolding frs(1) Some using IH by auto
  qed
qed

lemma present_classified:
  assumes "mapE (classify ex dp names kvs) ns = Inr frs"
  shows "set (present frs) = {nt. fst nt \<in> set ns \<and> classifiedPresent ex dp names kvs nt}"
  using present_classified_iff [OF assms] by blast

lemma stateMachine_JObj:
  assumes "\<forall>n \<in> set (allProperties props). plain_name n"
  shows "stateMachine ex props (JObj kvs)
     = bindE (mapE (classify ex (dataProcessing props) (allProperties props) kvs) (allProperties props))
         assemble"
proof (cases "mapE (classify ex (dataProcessing props) (allProperties props) kvs) (allProperties props)")
  case (Inl e)
  then show ?thesis
    by (simp add: stateMachine_def thenNext_def concatState_JObj [OF assms])
next
  case (Inr frs)
  show ?thesis
  proof (cases "frs = []")
    case True
    then show ?thesis
      using Inr by (simp add: stateMachine_def thenNext_def concatState_JObj [OF assms] assemble_def)
  next
    case False
    have len: "length frs = length (allProperties props)"
      using Inr by (rule mapE_length)
    have "\<forall>nt \<in> set (present frs). clean (fst nt)"
      using assms present_classified [OF Inr] by (simp add: plain_name_clean)
    from StringToJson_fragments [OF False len this]
    show ?thesis
      using Inr False
      by (simp add: stateMachine_def thenNext_def concatState_JObj [OF assms] toJsonTask_object)
  qed
qed


lemma keys_canonicalPairs: "fst ` set (canonicalPairs kvs) = fst ` set kvs"
  by (induction kvs) simp_all

lemma assemble_Inr:
  assumes "assemble frs = Inr out"
  shows "\<exists>ms. out = JObj ms \<and> distinct (map fst ms) \<and> fst ` set ms \<subseteq> fst ` set (present frs)
     \<and> (present frs \<noteq> [] \<longrightarrow>
          (\<exists>nt fs. frs = Some nt # fs \<and> ms = mergeObjects [] (canonicalPairs (nt # present frs))))"
proof (cases frs)
  case Nil
  then show ?thesis
    using assms by (simp add: assemble_def)
next
  case (Cons f fs)
  show ?thesis
  proof (cases f)
    case None
    then show ?thesis
      using assms Cons by (simp add: assemble_def split: if_splits)
  next
    case (Some nt)
    let ?ms = "mergeObjects [] (canonicalPairs (nt # present frs))"
    have "distinct (map fst ?ms)"
      unfolding mergeObjects_def
      by (rule rev_induct [of _ "canonicalPairs (nt # present frs)"]) (simp_all add: distinct_update)
    moreover have "fst ` set ?ms \<subseteq> fst ` set (present frs)"
      using Cons Some by (simp add: keys_mergeObjects keys_canonicalPairs del: canonicalPairs_simps)
    ultimately show ?thesis
      using assms Cons Some by (simp add: assemble_def del: canonicalPairs_simps)
  qed
qed

lemma map_of_single_valued:
  assumes "(k, u) \<in> set cp" and "\<forall>p \<in> set cp. fst p = k \<longrightarrow> snd p = u"
  shows "map_of (mergeObjects acc cp) k = Some u"
proof -
  have "k \<in> fst ` set (rev cp)"
    using assms(1) by force
  then obtain w where w: "map_of (rev cp) k = Some w"
    by (metis domD dom_map_of_conv_image_fst)
  then have "(k, w) \<in> set cp"
    using map_of_SomeD by fastforce
  then have "w = u"
    using assms(2) by auto
  then show ?thesis
    using w by (simp add: map_of_mergeObjects)
qed

lemma canonicalPairs_set: "set (canonicalPairs kvs) = (\<lambda>kv. (fst kv, canonical (snd kv))) ` set kvs"
  by (simp add: canonicalPairs_def)

lemma output_of_run:
  assumes "\<forall>n \<in> set (allProperties props). plain_name n"
    and "stateMachine ex props (JObj kvs) = Inr out"
  shows "\<exists>ms. out = JObj ms \<and> distinct (map fst ms)
     \<and> fst ` set ms \<subseteq> set (allProperties props)
     \<and> (\<forall>n \<in> set (allProperties props). \<forall>t.
           mergedValue ex (allProperties props) kvs n \<noteq> JStr (executionId ex) \<longrightarrow>
           intrinsic ex (dataProcessing props) (itemOf ex (allProperties props) kvs n) = Some t \<longrightarrow>
           map_of ms n = Some (canonical t))"
proof -
  let ?names = "allProperties props"
  let ?dp = "dataProcessing props"
  obtain frs where frs: "mapE (classify ex ?dp ?names kvs) ?names = Inr frs" "assemble frs = Inr out"
    using assms by (auto simp: stateMachine_JObj bindE_eq_Inr)
  note pres = present_classified [OF frs(1)]
  obtain ms where ms: "out = JObj ms" "distinct (map fst ms)" "fst ` set ms \<subseteq> fst ` set (present frs)"
      "present frs \<noteq> [] \<longrightarrow>
         (\<exists>nt fs. frs = Some nt # fs \<and> ms = mergeObjects [] (canonicalPairs (nt # present frs)))"
    using assemble_Inr [OF frs(2)] by blast
  have keys: "fst ` set ms \<subseteq> set ?names"
    using ms(3) pres by auto
  have vals: "map_of ms n = Some (canonical t)"
    if n: "n \<in> set ?names" "mergedValue ex ?names kvs n \<noteq> JStr (executionId ex)"
      "intrinsic ex ?dp (itemOf ex ?names kvs n) = Some t" for n t
  proof -
    have mem: "(n, t) \<in> set (present frs)"
      using n pres by (simp add: classifiedPresent_def)
    then have "present frs \<noteq> []"
      by auto
    then obtain nt fs where nt: "frs = Some nt # fs" "ms = mergeObjects [] (canonicalPairs (nt # present frs))"
      using ms(4) by blast
    have "nt \<in> set (present frs)"
      using nt(1) by simp
    then have all: "\<forall>p \<in> set (nt # present frs). fst p = n \<longrightarrow> snd p = t"
      using pres n(3) by (auto simp: classifiedPresent_def)
    have "(n, canonical t) \<in> set (canonicalPairs (nt # present frs))"
      using mem unfolding canonicalPairs_set by force
    moreover have "\<forall>p \<in> set (canonicalPairs (nt # present frs)). fst p = n \<longrightarrow> snd p = canonical t"
      using all unfolding canonicalPairs_set by auto
    ultimately show ?thesis
      unfolding nt(2) by (rule map_of_single_valued)
  qed
  show ?thesis
    using ms(1,2) keys vals by blast
qed

section \<open>The keys of the output\<close>




section \<open>Values that are present but falsy\<close>

lemma map_of_rev_distinct: "distinct (map fst kvs) \<Longrightarrow> map_of (rev kvs) = map_of kvs"
  by (subst map_of_inject_set) (simp_all add: rev_map [symmetric])

lemma merged_lookup:
  assumes "distinct (map fst kvs)"
  shows "map_of (mergeObjects pl kvs) n = (case map_of kvs n of Some u \<Rightarrow> Some u | None \<Rightarrow> map_of pl n)"
  by (simp add: map_of_mergeObjects map_of_rev_distinct [OF assms] map_add_def)

lemma run_classifies:
  assumes "\<forall>n \<in> set (allProperties props). plain_name n"
    and "stateMachine ex props (JObj kvs) = Inr out"
    and "n \<in> set (allProperties props)"
  shows "\<exists>f. classify ex (dataProcessing props) (allProperties props) kvs n = Inr f"
proof -
  obtain frs where "mapE (classify ex (dataProcessing props) (allProperties props) kvs) (allProperties props) = Inr frs"
    using assms(1,2) by (auto simp: stateMachine_JObj bindE_eq_Inr)
  then have "list_all2 (\<lambda>n f. classify ex (dataProcessing props) (allProperties props) kvs n = Inr f)
               (allProperties props) frs"
    by (simp add: mapE_eq_Inr)
  then show ?thesis
    using assms(3) by (auto simp: list_all2_conv_all_nth in_set_conv_nth)
qed

lemma classify_present:
  assumes "classify ex dp names kvs n = Inr f"
    and "mergedValue ex names kvs n \<noteq> JStr (executionId ex)"
  shows "\<exists>t. intrinsic ex dp (itemOf ex names kvs n) = Some t"
  using assms by (auto simp: classify_def split: option.splits)

lemma run_returns:
  assumes "\<forall>n \<in> set (allProperties props). plain_name n"
    and "allProperties props \<noteq> []"
    and "\<forall>n \<in> set (allProperties props).
           intrinsic ex (dataProcessing props) (itemOf ex (allProperties props) kvs n) \<noteq> None"
    and "mergedValue ex (allProperties props) kvs (hd (allProperties props)) \<noteq> JStr (executionId ex)"
  shows "\<exists>out. stateMachine ex props (JObj kvs) = Inr out"
proof -
  let ?names = "allProperties props"
  let ?dp = "dataProcessing props"
  define g where "g n = (if mergedValue ex ?names kvs n = JStr (executionId ex) then None
                         else Some (n, the (intrinsic ex ?dp (itemOf ex ?names kvs n))))" for n
  have "classify ex ?dp ?names kvs n = Inr (g n)" if "n \<in> set ?names" for n
    using that assms(3) by (auto simp: classify_def g_def split: option.splits)
  then have frs: "mapE (classify ex ?dp ?names kvs) ?names = Inr (map g ?names)"
    by (rule mapE_all_Inr)
  obtain n ns where names: "?names = n # ns"
    using assms(2) by (cases ?names) simp_all
  have "g n \<noteq> None"
    using assms(4) names by (simp add: g_def)
  then obtain nt where "g n = Some nt"
    by blast
  then have "\<exists>out. assemble (map g ?names) = Inr out"
    unfolding names by (simp add: assemble_def)
  then show ?thesis
    using assms(1) frs by (simp add: stateMachine_JObj)
qed

text \<open>
  C6, as stated, fails: the declared name \<open>a.b\<close> is present in the input with the value
  \<open>0\<close> and the merged record carries that value, but the path \<^verbatim>\<open>$.output.a.b\<close> of its item
  selects nothing, so the run fails and no output retains the value.
\<close>

theorem dotted_falsy_value_is_lost:
  "''a.b'' \<in> set (allProperties dottedProps)
   \<and> map_of [(''a.b'', JNum 0)] ''a.b'' = Some (JNum 0)
   \<and> map_of (mergeObjects (placeholderObject exampleExecution (allProperties dottedProps))
               [(''a.b'', JNum 0)]) ''a.b'' = Some (JNum 0)
   \<and> stateMachine exampleExecution dottedProps (JObj [(''a.b'', JNum 0)]) = Inl PathNotFound"
  by code_simp

text \<open>
  When the first declared property carries the identifier of the execution, the Choice
  state takes it for absent; the text of \<^verbatim>\<open>Concat\<close> then starts with the comma of the
  next fragment and does not parse, so the falsy value of \<open>tag\<close> reaches no output. The
  statement below leaves this case out: it neither promises nor denies it.
\<close>

lemma falsy_value_after_absent_first:
  \<open>concatState exampleExecution exampleProps
       (JObj [(''id'', JStr ''arn:aws:states:execution:1''), (''tag'', JNum 0)])
     = Inr (JObj [(''object'', JStr '' {    ,"tag": [0] }'')])
   \<and> stateMachine exampleExecution exampleProps
       (JObj [(''id'', JStr ''arn:aws:states:execution:1''), (''tag'', JNum 0)])
     = Inl InvalidJson\<close>
  by code_simp

text \<open>
  C6, as amended: when every declared name is a plain identifier, the processing
  succeeds on every item and the first declared property is not taken for absent, a
  declared property that the input defines with the value \<open>0\<close>, \<open>false\<close> or the empty string
  keeps that value in the merged record (the placeholder is used only for a key the
  input lacks), the Choice state sends its item to the processing, and the run returns
  a record that maps the property to its processed value. The keys of the input object
  are distinct and the identifier of the execution is not the empty string, as it is
  for every record and every execution of the engine.
\<close>

theorem falsy_values_are_retained:
  assumes "\<forall>n \<in> set (allProperties props). plain_name n"
    and "k \<in> set (allProperties props)"
    and "distinct (map fst kvs)" and "map_of kvs k = Some v"
    and "v = JNum 0 \<or> v = JBool False \<or> v = JStr ''''"
    and "executionId ex \<noteq> ''''"
    and "\<forall>n \<in> set (allProperties props).
           intrinsic ex (dataProcessing props) (itemOf ex (allProperties props) kvs n) \<noteq> None"
    and "mergedValue ex (allProperties props) kvs (hd (allProperties props)) \<noteq> JStr (executionId ex)"
  shows "mergedState ex props (JObj kvs)
           = Inr (JObj [(''output'', JObj (mergeObjects (placeholderObject ex (allProperties props)) kvs)),
                        (''input'', JObj kvs)])
     \<and> map_of (mergeObjects (placeholderObject ex (allProperties props)) kvs) k = Some v
     \<and> (\<forall>n. map_of (mergeObjects (placeholderObject ex (allProperties props)) kvs) n
              = (case map_of kvs n of
                   Some u \<Rightarrow> Some u
                 | None \<Rightarrow> map_of (placeholderObject ex (allProperties props)) n))
     \<and> (\<exists>before after.
           enumeratedState ex props (JObj kvs)
             = Inr (JObj [(''transformedInput'',
                            JArr (before @ JObj [(''value'', v), (''propertyName'', JStr k)] # after)),
                          (''input'', JObj kvs)]))
     \<and> choiceTask ex (dataProcessing props) (JObj [(''value'', v), (''propertyName'', JStr k)])
           = bindE (processObjectValuesTask ex (dataProcessing props)
                      (JObj [(''value'', v), (''propertyName'', JStr k)])) passValues
     \<and> (\<exists>ms t. stateMachine ex props (JObj kvs) = Inr (JObj ms)
              \<and> intrinsic ex (dataProcessing props) (JObj [(''value'', v), (''propertyName'', JStr k)]) = Some t
              \<and> map_of ms k = Some (canonical t))"
proof -
  let ?names = "allProperties props"
  let ?dp = "dataProcessing props"
  let ?merged = "mergeObjects (placeholderObject ex ?names) kvs"
  let ?item = "JObj [(''value'', v), (''propertyName'', JStr k)]"
  have lookup: "map_of ?merged n
      = (case map_of kvs n of Some u \<Rightarrow> Some u | None \<Rightarrow> map_of (placeholderObject ex ?names) n)" for n
    using assms(3) by (rule merged_lookup)
  have mk: "map_of ?merged k = Some v"
    using lookup [of k] assms(4) by simp
  then have mv: "mergedValue ex ?names kvs k = v"
    by (simp add: mergedValue_def)
  then have item: "itemOf ex ?names kvs k = ?item"
    by (simp add: itemOf_def)
  have enum: "\<exists>before after.
           enumeratedState ex props (JObj kvs)
             = Inr (JObj [(''transformedInput'', JArr (before @ ?item # after)), (''input'', JObj kvs)])"
  proof -
    obtain ns1 ns2 where split: "?names = ns1 @ k # ns2"
      using assms(2) by (meson split_list)
    have "map (itemOf ex ?names kvs) (ns1 @ k # ns2)
            = map (itemOf ex ?names kvs) ns1 @ ?item # map (itemOf ex ?names kvs) ns2"
      using item by simp
    then have "map (itemOf ex ?names kvs) ?names
            = map (itemOf ex ?names kvs) ns1 @ ?item # map (itemOf ex ?names kvs) ns2"
      using split by simp
    then show ?thesis
      using enumeratedState_JObj [OF assms(1), of ex kvs] by auto
  qed
  have present: "mergedValue ex ?names kvs k \<noteq> JStr (executionId ex)"
    using assms(5,6) mv by auto
  then have "choiceTask ex ?dp (itemOf ex ?names kvs k)
      = bindE (processObjectValuesTask ex ?dp (itemOf ex ?names kvs k)) passValues"
    by (simp add: choiceTask_def field_itemOf)
  then have choice: "choiceTask ex ?dp ?item = bindE (processObjectValuesTask ex ?dp ?item) passValues"
    unfolding item .
  have names: "?names \<noteq> []"
    using assms(2) by auto
  obtain out where run: "stateMachine ex props (JObj kvs) = Inr out"
    using run_returns [OF assms(1) names assms(7,8)] by blast
  obtain t where t: "intrinsic ex ?dp (itemOf ex ?names kvs k) = Some t"
    using assms(2,7) by blast
  obtain ms where ms: "out = JObj ms" "map_of ms k = Some (canonical t)"
    using output_of_run [OF assms(1) run] assms(2) present t by blast
  have out: "\<exists>ms t. stateMachine ex props (JObj kvs) = Inr (JObj ms)
              \<and> intrinsic ex ?dp ?item = Some t \<and> map_of ms k = Some (canonical t)"
    using run ms t item by auto
  show ?thesis
    using mergedState_JObj [of ex props kvs] mk lookup enum choice out by blast
qed

theorem falsy_values_are_retained_witness:
  "list_all plain_name (allProperties exampleProps)
   \<and> map_of [(''id'', JStr ''x''), (''tag'', JNum 0)] ''tag'' = Some (JNum 0)
   \<and> map_of (mergeObjects (placeholderObject exampleExecution (allProperties exampleProps))
              [(''id'', JStr ''x''), (''tag'', JNum 0)]) ''tag'' = Some (JNum 0)
   \<and> (\<exists>ms t. stateMachine exampleExecution exampleProps (JObj [(''id'', JStr ''x''), (''tag'', JNum 0)])
           = Inr (JObj ms)
         \<and> intrinsic exampleExecution (dataProcessing exampleProps)
               (JObj [(''value'', JNum 0), (''propertyName'', JStr ''tag'')]) = Some t
         \<and> map_of ms ''tag'' = Some (canonical t))
   \<and> stateMachine exampleExecution exampleProps (JObj [(''id'', JStr ''x''), (''tag'', JNum 0)])
     = Inr (JObj [(''id'', JArr [JStr ''x'']), (''tag'', JArr [JNum 0])])"
proof -
  let ?kvs = "[(''id'', JStr ''x''), (''tag'', JNum 0)]"
  have h2: "''tag'' \<in> set (allProperties exampleProps)"
    by (simp add: exampleProps_def allProperties_def)
  have h3: "distinct (map fst ?kvs)"
    by simp
  have h4: "map_of ?kvs ''tag'' = Some (JNum 0)"
    by simp
  have h5: "JNum 0 = JNum 0 \<or> JNum 0 = JBool False \<or> JNum 0 = JStr []"
    by simp
  have h6: "executionId exampleExecution \<noteq> []"
    by (simp add: exampleExecution_def)
  have h7: "\<forall>n \<in> set (allProperties exampleProps).
              intrinsic exampleExecution (dataProcessing exampleProps)
                (itemOf exampleExecution (allProperties exampleProps) ?kvs n) \<noteq> None"
    by (simp add: exampleExecution_def exampleProps_def allProperties_def itemOf_def)
  have h8: "mergedValue exampleExecution (allProperties exampleProps) ?kvs (hd (allProperties exampleProps))
              \<noteq> JStr (executionId exampleExecution)"
    by code_simp
  have pl: "list_all plain_name (allProperties exampleProps)"
    using example_names_plain by (simp add: list_all_iff)
  have run: "stateMachine exampleExecution exampleProps (JObj ?kvs)
     = Inr (JObj [(''id'', JArr [JStr ''x'']), (''tag'', JArr [JNum 0])])"
    by code_simp
  show ?thesis
    using pl h4 run falsy_values_are_retained [OF example_names_plain h2 h3 h4 h5 h6 h7 h8] by blast
qed

section \<open>The first declared property in the concatenated text\<close>

lemma padded_three:
  assumes "length ws = length (a # b # c # args)" and "\<forall>w \<in> set ws. blank w"
  shows "\<exists>pre mid post. blank mid \<and> padded ws (a # b # c # args) = pre @ b @ mid @ c @ post"
proof -
  obtain w0 w1 w2 ws' where ws: "ws = w0 # w1 # w2 # ws'"
    using assms(1) by (cases ws; cases "tl ws"; cases "tl (tl ws)") auto
  then have "padded ws (a # b # c # args) = (w0 @ a @ w1) @ b @ w2 @ c @ padded ws' args"
    by simp
  moreover have "blank w2"
    using assms(2) ws by simp
  ultimately show ?thesis
    by blast
qed

text \<open>
  C9, as stated, fails: with the one declared name \<^verbatim>\<open>a"b\<close>, which the input defines, the
  property is classified present and the text of \<^verbatim>\<open>Concat\<close> has its pair twice, but the
  quote of the name ends the key early; the final parse fails, and no output record
  maps the key to a value.
\<close>

theorem quoted_first_name_is_not_parsed:
  \<open>allProperties quotedProps = [''a"b'']
   \<and> classify exampleExecution (dataProcessing quotedProps) (allProperties quotedProps)
        [(''a"b'', JNum 1)] ''a"b''
     = Inr (Some (''a"b'', JArr [JNum 1]))
   \<and> concatState exampleExecution quotedProps (JObj [(''a"b'', JNum 1)])
     = Inr (JObj [(''object'', JStr '' {  "a"b": [1] ,"a"b": [1] }'')])
   \<and> stateMachine exampleExecution quotedProps (JObj [(''a"b'', JNum 1)]) = Inl InvalidJson\<close>
  by code_simp

text \<open>
  C9, as amended: when every declared name is a plain identifier, the first declared
  property is not taken for absent and the run reaches the end of \<^verbatim>\<open>Concat\<close>, the text has
  the pair of that property twice: in the slot of \<^verbatim>\<open>$.notNullValues[0]\<close> without a comma
  and, after blanks, in the slot of \<^verbatim>\<open>$.allValues[0]\<close> with one; \<^verbatim>\<open>ToJson\<close> parses the text,
  and the record it returns has every key once, the first property mapped to its
  processed value.
\<close>

theorem first_pair_is_emitted_twice:
  assumes "\<forall>n \<in> set (allProperties props). plain_name n"
    and "allProperties props = k0 # ks"
    and "mergedValue ex (allProperties props) kvs k0 \<noteq> JStr (executionId ex)"
    and "concatState ex props (JObj kvs) = Inr st"
  shows "\<exists>t0 rest object pre mid post ms.
       intrinsic ex (dataProcessing props) (itemOf ex (allProperties props) kvs k0) = Some t0
     \<and> st = JObj [(''object'', JStr object)]
     \<and> length rest = length ks
     \<and> States_Format (concatTemplate (allProperties props))
           (''{'' # pairText k0 t0 # (CHR '','' # pairText k0 t0) # rest @ [''}'']) = Some object
     \<and> object = pre @ pairText k0 t0 @ mid @ (CHR '','' # pairText k0 t0) @ post
     \<and> blank mid
     \<and> stateMachine ex props (JObj kvs) = Inr (JObj ms)
     \<and> distinct (map fst ms)
     \<and> map_of ms k0 = Some (canonical t0)"
proof -
  let ?names = "allProperties props"
  let ?dp = "dataProcessing props"
  obtain frs where frs: "mapE (classify ex ?dp ?names kvs) ?names = Inr frs" "frs \<noteq> []"
      "st = JObj [(''object'', JStr (concatText (length ?names) (fragmentArgs frs)))]"
    using assms(4) by (auto simp: concatState_JObj [OF assms(1)] bindE_eq_Inr split: if_splits)
  obtain f0 fs where f: "frs = f0 # fs" "classify ex ?dp ?names kvs k0 = Inr f0"
      "mapE (classify ex ?dp ?names kvs) ks = Inr fs"
    using frs(1) unfolding assms(2) by (auto split: sum.splits)
  obtain t0 where t0: "intrinsic ex ?dp (itemOf ex ?names kvs k0) = Some t0" "f0 = Some (k0, t0)"
    using f(2) assms(3) by (auto simp: classify_def split: option.splits)
  let ?rest = "map continuationText fs"
  let ?args = "''{'' # pairText k0 t0 # (CHR '','' # pairText k0 t0) # ?rest @ [''}'']"
  let ?object = "concatText (length ?names) (fragmentArgs frs)"
  have args: "fragmentArgs frs = ?args"
    using f(1) t0(2) by (simp add: fragmentArgs_def openingText_def continuationText_simps)
  have len: "length ?rest = length ks"
    using mapE_length [OF f(3)] by simp
  have largs: "length ?args = length ?names + 3"
    using len assms(2) by simp
  have fmt: "States_Format (concatTemplate ?names) ?args = Some ?object"
    using States_Format_concatTemplate [OF largs] args by simp
  obtain ws where ws: "length ws = length ?args" "\<forall>w \<in> set ws. blank w"
      "concatText (length ?names) ?args = padded ws ?args"
    using concatText_padded [of ?args "length ?names" 2] largs by auto
  obtain pre mid post where dec: "blank mid"
      "padded ws ?args = pre @ pairText k0 t0 @ mid @ (CHR '','' # pairText k0 t0) @ post"
    using padded_three [OF ws(1,2)] by blast
  have obj: "?object = pre @ pairText k0 t0 @ mid @ (CHR '','' # pairText k0 t0) @ post"
    using args ws(3) dec(2) by simp
  obtain out where run: "stateMachine ex props (JObj kvs) = Inr out"
    using frs(1) f(1) t0(2) assms(1) by (simp add: stateMachine_JObj assemble_def)
  obtain ms where ms: "out = JObj ms" "distinct (map fst ms)" "map_of ms k0 = Some (canonical t0)"
    using output_of_run [OF assms(1) run] assms(2,3) t0(1) by auto
  show ?thesis
    using t0(1) frs(3) len fmt obj dec(1) run ms by blast
qed

theorem first_pair_is_emitted_twice_witness:
  \<open>list_all plain_name (allProperties exampleProps)
   \<and> concatState exampleExecution exampleProps (JObj [(''id'', JStr ''x'')])
     = Inr (JObj [(''object'', JStr '' { "id": ["x"]  ,"id": ["x"] ,"tag": ["uuid-0"] }'')])
   \<and> (\<exists>t0 rest object pre mid post ms.
       intrinsic exampleExecution (dataProcessing exampleProps)
         (itemOf exampleExecution (allProperties exampleProps) [(''id'', JStr ''x'')] ''id'') = Some t0
     \<and> JObj [(''object'', JStr '' { "id": ["x"]  ,"id": ["x"] ,"tag": ["uuid-0"] }'')]
         = JObj [(''object'', JStr object)]
     \<and> length rest = length [''tag'']
     \<and> States_Format (concatTemplate (allProperties exampleProps))
           (''{'' # pairText ''id'' t0 # (CHR '','' # pairText ''id'' t0) # rest @ [''}'']) = Some object
     \<and> object = pre @ pairText ''id'' t0 @ mid @ (CHR '','' # pairText ''id'' t0) @ post
     \<and> blank mid
     \<and> stateMachine exampleExecution exampleProps (JObj [(''id'', JStr ''x'')]) = Inr (JObj ms)
     \<and> distinct (map fst ms)
     \<and> map_of ms ''id'' = Some (canonical t0))\<close>
proof -
  have h2: "allProperties exampleProps = ''id'' # [''tag'']"
    by (simp add: exampleProps_def allProperties_def)
  have h3: "mergedValue exampleExecution (allProperties exampleProps) [(''id'', JStr ''x'')] ''id''
              \<noteq> JStr (executionId exampleExecution)"
    by code_simp
  have h4: \<open>concatState exampleExecution exampleProps (JObj [(''id'', JStr ''x'')])
     = Inr (JObj [(''object'', JStr '' { "id": ["x"]  ,"id": ["x"] ,"tag": ["uuid-0"] }'')])\<close>
    by code_simp
  have pl: "list_all plain_name (allProperties exampleProps)"
    using example_names_plain by (simp add: list_all_iff)
  show ?thesis
    using pl h4 first_pair_is_emitted_twice [OF example_names_plain h2 h3 h4] by blast
qed

section \<open>The concatenated text\<close>

lemma passNullValues_fragment: "passNullValues st = Inr (fragmentJson None)"
  by (simp add: passNullValues_def fragmentJson_def)

text \<open>
  The two fragments of the Map state's iterations: \<^verbatim>\<open>Null values\<close> returns
  \<open>fragmentJson None\<close>, and \<^verbatim>\<open>Values\<close> returns \<open>fragmentJson (Some (n, t))\<close> for the property
  \<open>n\<close> with the processed value \<open>t\<close> (lemma \<open>passValues_item\<close>).
\<close>


text \<open>
  When the first fragment is absent and a later one is present, the text starts with a
  comma after the brace, and it does not parse.
\<close>

lemma leading_comma_is_invalid:
  \<open>bindE (resultSelector (map fragmentJson [None, Some (''tag'', JArr [JStr ''y''])]))
       (concatTask [''id'', ''tag''])
     = Inr (JObj [(''object'', JStr '' {    ,"tag": ["y"] }'')])
   \<and> StringToJson '' {    ,"tag": ["y"] }'' = None\<close>
  by code_simp


text \<open>
  A name with a quote in it is outside the statement below: the text that \<^verbatim>\<open>Concat\<close> makes
  of the one fragment of the name \<^verbatim>\<open>a"b\<close> does not parse.
\<close>

lemma quoted_name_is_invalid:
  \<open>bindE (resultSelector (map fragmentJson [Some (''a"b'', JNum 1)])) (concatTask [''a"b''])
     = Inr (JObj [(''object'', JStr '' {  "a"b": 1 ,"a"b": 1 }'')])
   \<and> StringToJson '' {  "a"b": 1 ,"a"b": 1 }'' = None\<close>
  by code_simp



end
